theory Spec2Isabelle
  imports Main "HOL-Library.AList" "HOL-Library.List_Lexorder"
begin

section \<open>Text: runes and strings\<close>

text \<open>
  The scanner reads its input rune by rune and the writer ranges over the runes of a
  value, so a Go string is modelled as the list of its Unicode code points (the text
  is taken to be valid UTF-8).  Lexicographic order on such lists is the byte order
  that \<^verbatim>\<open>sort.Strings\<close> uses, since UTF-8 preserves the order of code points.
\<close>

type_synonym rune = nat
type_synonym str = "rune list"

abbreviation TAB :: rune where "TAB \<equiv> 9"
abbreviation LF :: rune where "LF \<equiv> 10"
abbreviation CR :: rune where "CR \<equiv> 13"
abbreviation SPC :: rune where "SPC \<equiv> 32"
abbreviation DQUOTE :: rune where "DQUOTE \<equiv> 34"
abbreviation HASH :: rune where "HASH \<equiv> 35"
abbreviation HYPHEN :: rune where "HYPHEN \<equiv> 45"
abbreviation COLON :: rune where "COLON \<equiv> 58"
abbreviation EQS :: rune where "EQS \<equiv> 61"
abbreviation AT :: rune where "AT \<equiv> 64"
abbreviation BSLASH :: rune where "BSLASH \<equiv> 92"

text \<open>\<^verbatim>\<open>unicode.IsSpace\<close>: the Latin-1 cases and the White_Space range table.\<close>

definition isSpace :: "rune \<Rightarrow> bool" where
  "isSpace c \<longleftrightarrow>
     (9 \<le> c \<and> c \<le> 13) \<or> c = 32 \<or> c = 0x85 \<or> c = 0xA0 \<or> c = 0x1680 \<or>
     (0x2000 \<le> c \<and> c \<le> 0x200A) \<or> c = 0x2028 \<or> c = 0x2029 \<or> c = 0x202F \<or>
     c = 0x205F \<or> c = 0x3000"

text \<open>
  \<^verbatim>\<open>unicode.ToLower\<close>: the ASCII letters are mapped as Go's fast path does; beyond
  ASCII the case table of Go's standard library applies, which is no part of the
  repository and is taken as the parameter \<open>tbl\<close>.
\<close>

definition toLower :: "(rune \<Rightarrow> rune) \<Rightarrow> rune \<Rightarrow> rune" where
  "toLower tbl c = (if c < 128 then (if 65 \<le> c \<and> c \<le> 90 then c + 32 else c) else tbl c)"

definition ToLower :: "(rune \<Rightarrow> rune) \<Rightarrow> str \<Rightarrow> str" where
  "ToLower tbl s = map (toLower tbl) s"

text \<open>\<^verbatim>\<open>strings.Fields\<close>: the maximal runs of non-space runes; \<open>w\<close> is the run being read.\<close>

fun Fields_from :: "str \<Rightarrow> str \<Rightarrow> str list" where
  "Fields_from w [] = (if w = [] then [] else [w])"
| "Fields_from w (c # cs) =
     (if isSpace c then (if w = [] then Fields_from [] cs else w # Fields_from [] cs)
      else Fields_from (w @ [c]) cs)"

definition Fields :: "str \<Rightarrow> str list" where
  "Fields s = Fields_from [] s"

fun Join :: "str list \<Rightarrow> str \<Rightarrow> str" where
  "Join [] sep = []"
| "Join [w] sep = w"
| "Join (w # ws) sep = w @ sep @ Join ws sep"

definition TrimSpace :: "str \<Rightarrow> str" where
  "TrimSpace s = rev (dropWhile isSpace (rev (dropWhile isSpace s)))"

text \<open>\<^verbatim>\<open>strings.Contains(value, "\n")\<close> and \<^verbatim>\<open>strings.Index(line, "=")\<close> for a one-rune
  pattern; \<open>Index\<close> is \<open>-1\<close> when the rune does not occur.\<close>

definition Contains :: "str \<Rightarrow> rune \<Rightarrow> bool" where
  "Contains s c \<longleftrightarrow> c \<in> set s"

definition Index :: "str \<Rightarrow> rune \<Rightarrow> int" where
  "Index s c = (if c \<in> set s then int (length (takeWhile (\<lambda>x. x \<noteq> c) s)) else - 1)"

text \<open>\<^verbatim>\<open>len(s)\<close> counts bytes: the UTF-8 length of each rune.\<close>

definition RuneLen :: "rune \<Rightarrow> nat" where
  "RuneLen c = (if c < 0x80 then 1 else if c < 0x800 then 2 else if c < 0x10000 then 3 else 4)"

definition len :: "str \<Rightarrow> nat" where
  "len s = sum_list (map RuneLen s)"

section \<open>Record\<close>

text \<open>
  The Go map \<open>data\<close> is an association list with one entry per key, read with
  \<open>map_of\<close>; \<open>Keys\<close> sorts, so the order of the entries is never observed.
\<close>

record Record =
  r_id :: str
  r_typ :: str
  r_data :: "(str \<times> str) list"

definition normKey :: "(rune \<Rightarrow> rune) \<Rightarrow> str \<Rightarrow> str" where
  "normKey tbl s = ToLower tbl (Join (Fields s) [HYPHEN])"

definition NewRecord :: "(rune \<Rightarrow> rune) \<Rightarrow> str \<Rightarrow> str \<Rightarrow> Record option" where
  "NewRecord tbl typ0 ID0 =
     (let typ = ToLower tbl (Join (Fields typ0) [HYPHEN]) in
      if typ = [] then None
      else let ID = Join (Fields ID0) [SPC] in
        if ID = [] then None
        else Some \<lparr>r_id = ID, r_typ = typ, r_data = []\<rparr>)"

definition ID :: "Record \<Rightarrow> str" where
  "ID r = r_id r"

definition Type :: "Record \<Rightarrow> str" where
  "Type r = r_typ r"

definition Keys :: "Record \<Rightarrow> str list" where
  "Keys r = (if length (r_data r) = 0 then [] else sort (map fst (r_data r)))"

definition Get :: "(rune \<Rightarrow> rune) \<Rightarrow> Record \<Rightarrow> str \<Rightarrow> str" where
  "Get tbl r key =
     (case map_of (r_data r) (normKey tbl key) of None \<Rightarrow> [] | Some v \<Rightarrow> v)"

definition Set :: "(rune \<Rightarrow> rune) \<Rightarrow> Record \<Rightarrow> str \<Rightarrow> str \<Rightarrow> Record" where
  "Set tbl r key0 value0 =
     (let key = normKey tbl key0 in
      if key = [] then r
      else let v = TrimSpace value0 in
        if v = [] then r\<lparr>r_data := AList.delete key (r_data r)\<rparr>
        else r\<lparr>r_data := AList.update key v (r_data r)\<rparr>)"

section \<open>Scanner\<close>

text \<open>
  The \<^verbatim>\<open>bufio.Reader\<close> of the scanner is the pair of the runes not yet read (\<open>s_r\<close>)
  and the error the underlying reader gives once they are used up (\<open>s_fin\<close>):
  \<open>EOF\<close> for an ordinary end of stream, \<open>ReadFault\<close> for any other failure.
  \<open>LineError n e\<close> is \<^verbatim>\<open>errors.Wrapf(e, "reclist: scanner: line %d", n)\<close>.
\<close>

datatype error = EOF | ReadFault | LineError nat error

fun Cause :: "error \<Rightarrow> error" where
  "Cause (LineError n e) = Cause e"
| "Cause e = e"

record Scanner =
  s_closed :: bool
  s_err :: "error option"
  s_r :: str
  s_fin :: error
  s_line :: nat
  s_rec :: "Record option"
  s_b :: str

definition NewScanner :: "str \<Rightarrow> error \<Rightarrow> Scanner" where
  "NewScanner input fin =
     \<lparr>s_closed = False, s_err = None, s_r = input, s_fin = fin, s_line = 0,
      s_rec = None, s_b = []\<rparr>"

subsection \<open>The reader's methods\<close>

definition ReadRune :: "Scanner \<Rightarrow> (error + rune) \<times> Scanner" where
  "ReadRune s =
     (case s_r s of [] \<Rightarrow> (Inl (s_fin s), s) | c # cs \<Rightarrow> (Inr c, s\<lparr>s_r := cs\<rparr>))"

text \<open>
  \<^verbatim>\<open>UnreadRune\<close> puts back the rune of the last \<^verbatim>\<open>ReadRune\<close>.  Each of its three calls
  in the scanner directly follows a successful \<^verbatim>\<open>ReadRune\<close>, whose rune is passed here.
\<close>

definition UnreadRune :: "rune \<Rightarrow> Scanner \<Rightarrow> Scanner" where
  "UnreadRune c s = s\<lparr>s_r := c # s_r s\<rparr>"

text \<open>\<^verbatim>\<open>ReadString(delim)\<close>: the text up to and including the first \<open>delim\<close>; when there
  is none, the rest of the text together with the reader's error.\<close>

definition ReadString :: "rune \<Rightarrow> Scanner \<Rightarrow> (str \<times> error option) \<times> Scanner" where
  "ReadString delim s =
     (if delim \<in> set (s_r s)
      then ((takeWhile (\<lambda>c. c \<noteq> delim) (s_r s) @ [delim], None),
            s\<lparr>s_r := tl (dropWhile (\<lambda>c. c \<noteq> delim) (s_r s))\<rparr>)
      else ((s_r s, Some (s_fin s)), s\<lparr>s_r := []\<rparr>))"

subsection \<open>readRune and skip\<close>

definition readRune :: "Scanner \<Rightarrow> (error + rune) \<times> Scanner" where
  "readRune s =
     (case ReadRune s of
        (Inl e, s1) \<Rightarrow> (Inl e, s1)
      | (Inr r1, s1) \<Rightarrow>
          if r1 = CR then
            (case ReadRune s1 of
               (Inl e, s2) \<Rightarrow> (Inl e, s2)
             | (Inr r2, s2) \<Rightarrow>
                 if r2 \<noteq> LF then (Inr CR, UnreadRune r2 s2) else (Inr r2, s2))
          else (Inr r1, s1))"

lemma readRune_le: "readRune s = (x, s1) \<Longrightarrow> length (s_r s1) \<le> length (s_r s)"
  by (auto simp: readRune_def ReadRune_def UnreadRune_def split: list.splits if_splits)

lemma readRune_less: "readRune s = (Inr c, s1) \<Longrightarrow> length (s_r s1) < length (s_r s)"
  by (auto simp: readRune_def ReadRune_def UnreadRune_def split: list.splits if_splits)

lemmas readRune_le' = readRune_le [OF sym]
lemmas readRune_less' = readRune_less [OF sym]

text \<open>\<open>skip\<close> returns an error as well, which its only caller drops; the model returns
  the scanner alone.\<close>

function skip :: "rune \<Rightarrow> Scanner \<Rightarrow> Scanner" where
  "skip delim s =
     (case readRune s of
        (Inl e, s1) \<Rightarrow> s1
      | (Inr r1, s1) \<Rightarrow> if r1 = delim then s1 else skip delim s1)"
  by pat_completeness auto
termination
  by (relation "measure (\<lambda>(d, s). length (s_r s))") (auto dest: readRune_less')

lemma skip_le: "length (s_r (skip d s)) \<le> length (s_r s)"
proof (induction d s rule: skip.induct)
  case (1 delim s)
  show ?case
  proof (cases "readRune s")
    case (Pair x s1)
    note le = readRune_le [OF Pair]
    show ?thesis
    proof (cases x)
      case (Inl e)
      with Pair le show ?thesis by (simp add: skip.simps [of delim s])
    next
      case (Inr r1)
      with Pair le "1.IH" [of "Inr r1" s1 r1] show ?thesis
        by (cases "r1 = delim") (auto simp: skip.simps [of delim s])
    qed
  qed
qed

declare skip.simps [simp del]

subsection \<open>parseKey\<close>

text \<open>The first loop of \<open>parseKey\<close>: it ends with an error, or with the rune that
  opens the key put back.\<close>

function parseKey_seek :: "Scanner \<Rightarrow> (error + rune) \<times> Scanner" where
  "parseKey_seek s =
     (case readRune s of
        (Inl e, s1) \<Rightarrow> (Inl e, s1)
      | (Inr r1, s1) \<Rightarrow>
          if r1 = LF then parseKey_seek (s1\<lparr>s_line := s_line s1 + 1\<rparr>)
          else if isSpace r1 then parseKey_seek s1
          else if r1 = HASH then
            parseKey_seek ((skip LF s1)\<lparr>s_line := s_line (skip LF s1) + 1\<rparr>)
          else (Inr r1, UnreadRune r1 s1))"
  by pat_completeness auto
termination
proof (relation "measure (\<lambda>s. length (s_r s))", goal_cases)
  case 1
  show ?case by simp
next
  case (2 s x s1 r1)
  then show ?case by (auto dest: readRune_less')
next
  case (3 s x s1 r1)
  then show ?case by (auto dest: readRune_less')
next
  case (4 s x s1 r1)
  then have "length (s_r s1) < length (s_r s)" by (auto dest: readRune_less')
  with skip_le [of LF s1] show ?case by simp
qed

text \<open>The second loop: \<open>space\<close> is the flag of the source, the key grows in \<open>s_b\<close>.\<close>

function parseKey_read :: "bool \<Rightarrow> Scanner \<Rightarrow> (error + str \<times> rune) \<times> Scanner" where
  "parseKey_read space s =
     (case readRune s of
        (Inl e, s1) \<Rightarrow> (Inl e, s1)
      | (Inr r1, s1) \<Rightarrow>
          if r1 = LF then (Inr ([], LF), s1\<lparr>s_line := s_line s1 + 1\<rparr>)
          else if isSpace r1 then parseKey_read True s1
          else if r1 = COLON then (Inr (s_b s1, COLON), s1)
          else parseKey_read False
                 (s1\<lparr>s_b := s_b s1 @ (if space then [HYPHEN] else []) @ [r1]\<rparr>))"
  by pat_completeness auto
termination
  by (relation "measure (\<lambda>(sp, s). length (s_r s))") (auto dest: readRune_less')

definition parseKey :: "Scanner \<Rightarrow> (error + str \<times> rune) \<times> Scanner" where
  "parseKey s =
     (case parseKey_seek s of
        (Inl e, s1) \<Rightarrow> (Inl e, s1)
      | (Inr r1, s1) \<Rightarrow>
          if r1 = AT then (Inr ([], AT), s1)
          else parseKey_read False (s1\<lparr>s_b := []\<rparr>))"

lemma parseKey_seek_le:
  "parseKey_seek s = (x, s') \<Longrightarrow> length (s_r s') \<le> length (s_r s)"
proof (induction s arbitrary: x s' rule: parseKey_seek.induct)
  case (1 s)
  obtain y s1 where rr: "readRune s = (y, s1)" by force
  note le = readRune_le [OF rr]
  show ?case
  proof (cases y)
    case (Inl e)
    with rr le "1.prems" show ?thesis by (simp add: parseKey_seek.simps [of s])
  next
    case (Inr r1)
    with rr have lt: "length (s_r s1) < length (s_r s)" by (auto dest: readRune_less)
    consider (nl) "r1 = LF" | (sp) "r1 \<noteq> LF" "isSpace r1"
      | (hash) "r1 \<noteq> LF" "\<not> isSpace r1" "r1 = HASH"
      | (key) "r1 \<noteq> LF" "\<not> isSpace r1" "r1 \<noteq> HASH" by blast
    then show ?thesis
    proof cases
      case nl
      with rr Inr "1.prems" have "parseKey_seek (s1\<lparr>s_line := s_line s1 + 1\<rparr>) = (x, s')"
        by (simp add: parseKey_seek.simps [of s])
      from "1.IH"(1) [OF rr [symmetric] Inr [THEN arg_cong, of "\<lambda>u. u"] nl this] lt
      show ?thesis by simp
    next
      case sp
      with rr Inr "1.prems" have "parseKey_seek s1 = (x, s')"
        by (simp add: parseKey_seek.simps [of s])
      from "1.IH"(2) [OF rr [symmetric] Inr [THEN arg_cong, of "\<lambda>u. u"] sp this] lt
      show ?thesis by simp
    next
      case hash
      with rr Inr "1.prems"
      have "parseKey_seek ((skip LF s1)\<lparr>s_line := s_line (skip LF s1) + 1\<rparr>) = (x, s')"
        by (simp add: parseKey_seek.simps [of s])
      from "1.IH"(3) [OF rr [symmetric] Inr [THEN arg_cong, of "\<lambda>u. u"] hash this] lt
        skip_le [of LF s1]
      show ?thesis by simp
    next
      case key
      with rr Inr "1.prems" lt show ?thesis
        by (auto simp: parseKey_seek.simps [of s] UnreadRune_def)
    qed
  qed
qed

declare parseKey_seek.simps [simp del] parseKey_read.simps [simp del]

lemma parseKey_read_le:
  "parseKey_read sp s = (x, s') \<Longrightarrow> length (s_r s') \<le> length (s_r s)"
proof (induction "length (s_r s)" arbitrary: s sp rule: less_induct)
  case less
  show ?case using less.prems
    apply (subst (asm) parseKey_read.simps)
    apply (auto split: prod.splits sum.splits if_splits dest: readRune_le
           dest!: less.hyps [rotated] readRune_less)
    done
qed

lemma parseKey_read_less:
  "parseKey_read sp s = (Inr kd, s') \<Longrightarrow> length (s_r s') < length (s_r s)"
proof (induction "length (s_r s)" arbitrary: s sp rule: less_induct)
  case less
  show ?case using less.prems
    apply (subst (asm) parseKey_read.simps)
    apply (auto split: prod.splits sum.splits if_splits dest: readRune_le
           dest!: less.hyps [rotated] readRune_less)
    done
qed

lemma parseKey_le: "parseKey s = (x, s') \<Longrightarrow> length (s_r s') \<le> length (s_r s)"
  by (auto simp: parseKey_def split: prod.splits sum.splits if_splits
      dest!: parseKey_seek_le parseKey_read_le)

lemma parseKey_less:
  "parseKey s = (Inr (k, d), s') \<Longrightarrow> d \<noteq> AT \<Longrightarrow> length (s_r s') < length (s_r s)"
  by (auto simp: parseKey_def split: prod.splits sum.splits if_splits
      dest!: parseKey_seek_le parseKey_read_less)

subsection \<open>parseValue and quoteValue\<close>

text \<open>The loop of \<open>quoteValue\<close> with its three flags; the value grows in \<open>s_b\<close>.\<close>

function quoteValue_loop :: "bool \<Rightarrow> bool \<Rightarrow> bool \<Rightarrow> Scanner \<Rightarrow> (error + str) \<times> Scanner" where
  "quoteValue_loop first space line s =
     (case readRune s of
        (Inl e, s1) \<Rightarrow>
          if length (s_b s1) > 0 then (Inr (s_b s1), s1) else (Inl e, s1)
      | (Inr r1, s1) \<Rightarrow>
          if r1 = LF then
            (if \<not> first then quoteValue_loop first False True (s1\<lparr>s_line := s_line s1 + 1\<rparr>)
             else quoteValue_loop first space line (s1\<lparr>s_line := s_line s1 + 1\<rparr>))
          else if isSpace r1 then
            (if \<not> first \<and> \<not> line then quoteValue_loop first True line s1
             else quoteValue_loop first space line s1)
          else if r1 = DQUOTE then (Inr (s_b s1), s1)
          else if r1 = BSLASH then
            (case readRune s1 of
               (Inl e, s2) \<Rightarrow> quoteValue_loop first space line s2
             | (Inr r2, s2) \<Rightarrow>
                 quoteValue_loop False False False
                   (s2\<lparr>s_b := s_b s2 @ (if line then [LF] else if space then [SPC] else [])
                                      @ [r2]\<rparr>))
          else
            quoteValue_loop False False False
              (s1\<lparr>s_b := s_b s1 @ (if line then [LF] else if space then [SPC] else [])
                                 @ [r1]\<rparr>))"
  by pat_completeness auto
termination
proof (relation "measure (\<lambda>(f, sp, l, s). length (s_r s))", goal_cases)
  case 1
  show ?case by simp
next
  case (6 first space line s x s1 r1 y s2 e)
  then have "length (s_r s1) < length (s_r s)" "length (s_r s2) \<le> length (s_r s1)"
    by (auto dest: readRune_less' readRune_le')
  then show ?case by simp
next
  case (7 first space line s x s1 r1 y s2 r2)
  then have "length (s_r s1) < length (s_r s)" "length (s_r s2) \<le> length (s_r s1)"
    by (auto dest: readRune_less' readRune_le')
  then show ?case by simp
qed (auto dest: readRune_less')

declare quoteValue_loop.simps [simp del]

definition quoteValue :: "Scanner \<Rightarrow> (error + str) \<times> Scanner" where
  "quoteValue s = quoteValue_loop True False False (s\<lparr>s_b := []\<rparr>)"

text \<open>\<open>parseValue\<close> hands on the pair that \<^verbatim>\<open>ReadString\<close> returns; its caller looks at
  the value only when there is no error, so with an error the model returns the
  error alone.\<close>

function parseValue :: "Scanner \<Rightarrow> (error + str) \<times> Scanner" where
  "parseValue s =
     (case readRune s of
        (Inl e, s1) \<Rightarrow> (Inl e, s1)
      | (Inr r1, s1) \<Rightarrow>
          if r1 = LF then (Inr [], s1\<lparr>s_line := s_line s1 + 1\<rparr>)
          else if isSpace r1 then parseValue s1
          else if r1 = DQUOTE then quoteValue s1
          else
            (case ReadString LF (UnreadRune r1 s1) of
               ((v, None), s2) \<Rightarrow> (Inr v, s2)
             | ((v, Some e), s2) \<Rightarrow> (Inl e, s2)))"
  by pat_completeness auto
termination
  by (relation "measure (\<lambda>s. length (s_r s))") (auto dest: readRune_less')

declare parseValue.simps [simp del]

lemma quoteValue_loop_le:
  "quoteValue_loop f sp l s = (x, s') \<Longrightarrow> length (s_r s') \<le> length (s_r s)"
proof (induction "length (s_r s)" arbitrary: s f sp l rule: less_induct)
  case less
  show ?case using less.prems
    apply (subst (asm) quoteValue_loop.simps)
    apply (auto split: prod.splits sum.splits if_splits dest: readRune_le
           dest!: less.hyps [rotated] readRune_less)
    done
qed

lemma ReadString_less:
  "ReadString d s = ((v, None), s') \<Longrightarrow> length (s_r s') < length (s_r s)"
proof -
  assume a: "ReadString d s = ((v, None), s')"
  then have mem: "d \<in> set (s_r s)"
    by (auto simp: ReadString_def split: if_splits)
  then have "dropWhile (\<lambda>c. c \<noteq> d) (s_r s) \<noteq> []" by simp
  then have "length (tl (dropWhile (\<lambda>c. c \<noteq> d) (s_r s))) < length (dropWhile (\<lambda>c. c \<noteq> d) (s_r s))"
    by (cases "dropWhile (\<lambda>c. c \<noteq> d) (s_r s)") auto
  also have "\<dots> \<le> length (s_r s)" by (rule length_dropWhile_le)
  finally show ?thesis using a mem by (auto simp: ReadString_def)
qed

lemma ReadString_le:
  "ReadString d s = (x, s') \<Longrightarrow> length (s_r s') \<le> length (s_r s)"
  using length_dropWhile_le [of "\<lambda>c. c \<noteq> d" "s_r s"]
  by (auto simp: ReadString_def split: if_splits)

lemma parseValue_le:
  "parseValue s = (x, s') \<Longrightarrow> length (s_r s') \<le> length (s_r s)"
proof (induction "length (s_r s)" arbitrary: s rule: less_induct)
  case less
  show ?case using less.prems
    apply (subst (asm) parseValue.simps)
    apply (auto simp: quoteValue_def UnreadRune_def
           split: prod.splits sum.splits if_splits option.splits
           dest: readRune_le dest!: less.hyps [rotated] readRune_less quoteValue_loop_le
                 ReadString_le)
    done
qed

subsection \<open>parseRecord\<close>

text \<open>The body of the header loop once a line is read: \<open>None\<close> stands for each of its
  \<^verbatim>\<open>continue\<close> statements.  The index of \<^verbatim>\<open>=\<close> counts runes here and bytes in the source;
  both are below 1 for the same lines, and cut the line at the same place.\<close>

definition headerLine :: "(rune \<Rightarrow> rune) \<Rightarrow> str \<Rightarrow> Record option" where
  "headerLine tbl line0 =
     (let line = TrimSpace line0 in
      if line = [] then None
      else if hd line = HASH then None
      else if hd line \<noteq> AT then None
      else let line1 = tl line; i = Index line1 EQS in
        if i < 1 then None
        else NewRecord tbl (take (nat i) line1) (drop (nat i + 1) line1))"

function parseHeader :: "(rune \<Rightarrow> rune) \<Rightarrow> Scanner \<Rightarrow> (error + Record) \<times> Scanner" where
  "parseHeader tbl s =
     (case ReadString LF (s\<lparr>s_line := s_line s + 1\<rparr>) of
        ((line, Some e), s1) \<Rightarrow>
          if e = EOF then (Inl e, s1) else (Inl (LineError (s_line s1) e), s1)
      | ((line, None), s1) \<Rightarrow>
          (case headerLine tbl line of
             None \<Rightarrow> parseHeader tbl s1
           | Some rec \<Rightarrow> (Inr rec, s1)))"
  by pat_completeness auto
termination
  by (relation "measure (\<lambda>(t, s). length (s_r s))") (auto dest!: ReadString_less [OF sym])

declare parseHeader.simps [simp del]

lemma parseHeader_less:
  "parseHeader tbl s = (Inr rec, s') \<Longrightarrow> length (s_r s') < length (s_r s)"
proof (induction "length (s_r s)" arbitrary: s rule: less_induct)
  case less
  obtain line oe s1 where rs: "ReadString LF (s\<lparr>s_line := s_line s + 1\<rparr>) = ((line, oe), s1)"
    by (metis surj_pair)
  show ?case
  proof (cases oe)
    case (Some e)
    with rs less.prems show ?thesis by (simp add: parseHeader.simps [of tbl s] split: if_splits)
  next
    case None
    with rs have lt: "length (s_r s1) < length (s_r s)" by (auto dest: ReadString_less)
    show ?thesis
    proof (cases "headerLine tbl line")
      case (Some r)
      with rs None less.prems lt show ?thesis by (simp add: parseHeader.simps [of tbl s])
    next
      case hn: None
      with rs None less.prems have "parseHeader tbl s1 = (Inr rec, s')"
        by (simp add: parseHeader.simps [of tbl s])
      from less.hyps [OF lt this] lt show ?thesis by simp
    qed
  qed
qed

text \<open>The loop that reads the fields; \<open>rec\<close> is the record under construction.\<close>

function parseFields :: "(rune \<Rightarrow> rune) \<Rightarrow> Record \<Rightarrow> Scanner \<Rightarrow> Record \<times> Scanner" where
  "parseFields tbl rec s =
     (case parseKey s of
        (Inl e, s1) \<Rightarrow> (rec, s1)
      | (Inr (key, delim), s1) \<Rightarrow>
          if delim = AT then (rec, s1)
          else if delim = LF then parseFields tbl rec s1
          else
            (case parseValue s1 of
               (Inl e, s2) \<Rightarrow> (rec, s2)
             | (Inr v, s2) \<Rightarrow> parseFields tbl (Set tbl rec key v) s2))"
  by pat_completeness auto
termination
proof (relation "measure (\<lambda>(t, rc, s). length (s_r s))", goal_cases)
  case 1
  show ?case by simp
next
  case 2
  then show ?case by (auto dest!: parseKey_less [OF sym])
next
  case 3
  then show ?case by (auto dest!: parseKey_less [OF sym] parseValue_le [OF sym])
qed

declare parseFields.simps [simp del]

lemma parseFields_le:
  "parseFields tbl rec s = (rec', s') \<Longrightarrow> length (s_r s') \<le> length (s_r s)"
proof (induction "length (s_r s)" arbitrary: s rec rule: less_induct)
  case less
  obtain x s1 where pk: "parseKey s = (x, s1)" by force
  note le1 = parseKey_le [OF pk]
  show ?case
  proof (cases x)
    case (Inl e)
    with pk less.prems le1 show ?thesis by (simp add: parseFields.simps [of tbl rec s])
  next
    case (Inr kd)
    obtain key delim where kd: "kd = (key, delim)" by force
    consider (at) "delim = AT" | (nl) "delim \<noteq> AT" "delim = LF"
      | (val) "delim \<noteq> AT" "delim \<noteq> LF" by blast
    then show ?thesis
    proof cases
      case at
      with pk Inr kd less.prems le1 show ?thesis
        by (simp add: parseFields.simps [of tbl rec s])
    next
      case nl
      with pk Inr kd have lt: "length (s_r s1) < length (s_r s)"
        by (auto dest: parseKey_less)
      from nl pk Inr kd less.prems have "parseFields tbl rec s1 = (rec', s')"
        by (simp add: parseFields.simps [of tbl rec s])
      from less.hyps [OF lt this] lt show ?thesis by simp
    next
      case val
      with pk Inr kd have lt: "length (s_r s1) < length (s_r s)"
        by (auto dest: parseKey_less)
      obtain y s2 where pv: "parseValue s1 = (y, s2)" by force
      note le2 = parseValue_le [OF pv]
      show ?thesis
      proof (cases y)
        case (Inl e)
        with val pk Inr kd pv less.prems lt le2 show ?thesis
          by (simp add: parseFields.simps [of tbl rec s])
      next
        case yr: (Inr v)
        with val pk Inr kd pv less.prems
        have "parseFields tbl (Set tbl rec key v) s2 = (rec', s')"
          by (simp add: parseFields.simps [of tbl rec s])
        from less.hyps [OF _ this] lt le2 show ?thesis by simp
      qed
    qed
  qed
qed

definition parseRecord :: "(rune \<Rightarrow> rune) \<Rightarrow> Scanner \<Rightarrow> (error + Record) \<times> Scanner" where
  "parseRecord tbl s =
     (case parseHeader tbl s of
        (Inl e, s1) \<Rightarrow> (Inl e, s1)
      | (Inr rec, s1) \<Rightarrow> (case parseFields tbl rec s1 of (rec', s2) \<Rightarrow> (Inr rec', s2)))"

lemma parseRecord_less:
  "parseRecord tbl s = (Inr rec, s') \<Longrightarrow> length (s_r s') < length (s_r s)"
  by (auto simp: parseRecord_def split: prod.splits sum.splits
      dest!: parseHeader_less parseFields_le)

subsection \<open>Scan, Record and Err\<close>

function Scan_loop :: "(rune \<Rightarrow> rune) \<Rightarrow> Scanner \<Rightarrow> bool \<times> Scanner" where
  "Scan_loop tbl s =
     (case parseRecord tbl s of
        (Inl e, s1) \<Rightarrow>
          if Cause e = EOF then (False, s1\<lparr>s_closed := True\<rparr>)
          else (False, s1\<lparr>s_closed := True, s_err := Some e\<rparr>)
      | (Inr rec, s1) \<Rightarrow>
          if length (r_data rec) = 0 then Scan_loop tbl s1
          else (True, s1\<lparr>s_rec := Some rec\<rparr>))"
  by pat_completeness auto
termination
proof (relation "measure (\<lambda>(t, s). length (s_r s))", goal_cases)
  case 1
  show ?case by simp
next
  case (2 tbl s x s1 rec)
  then have "parseRecord tbl s = (Inr rec, s1)" by simp
  from parseRecord_less [OF this] show ?case by simp
qed

declare Scan_loop.simps [simp del]

definition Scan :: "(rune \<Rightarrow> rune) \<Rightarrow> Scanner \<Rightarrow> bool \<times> Scanner" where
  "Scan tbl s = (if s_closed s then (False, s) else Scan_loop tbl s)"

text \<open>The method \<open>Record\<close>; \<open>Inl\<close> is its panic.\<close>

definition Record_m :: "Scanner \<Rightarrow> string + Record \<times> Scanner" where
  "Record_m s =
     (case s_rec s of
        None \<Rightarrow> Inl ''Record called without Scan''
      | Some rec \<Rightarrow> Inr (rec, s\<lparr>s_rec := None\<rparr>))"

definition Err :: "Scanner \<Rightarrow> error option" where
  "Err s = s_err s"

section \<open>Writer\<close>

text \<open>
  The writer's state is the text written so far; the sink is taken never to fail, so
  the error results of the source are always \<^verbatim>\<open>nil\<close> and are left out.
\<close>

text \<open>The text that the loop of \<open>writeQuoted\<close> emits for the rest of a value.\<close>

fun writeQuoted_loop :: "bool \<Rightarrow> bool \<Rightarrow> bool \<Rightarrow> str \<Rightarrow> str" where
  "writeQuoted_loop first space line [] = []"
| "writeQuoted_loop first space line (r # rs) =
     (if r = LF then
        (if \<not> first then writeQuoted_loop first False True rs
         else writeQuoted_loop first space line rs)
      else if isSpace r then
        (if \<not> first \<and> \<not> line then writeQuoted_loop first True line rs
         else writeQuoted_loop first space line rs)
      else
        (if line then [LF, TAB, TAB] else if space then [SPC] else [])
        @ (if r = DQUOTE then [BSLASH, DQUOTE]
           else if r = BSLASH then [BSLASH, BSLASH]
           else [r])
        @ writeQuoted_loop False False False rs)"

definition writeQuoted :: "str \<Rightarrow> str \<Rightarrow> str \<Rightarrow> str" where
  "writeQuoted key v w =
     w @ (if len key < 6 then [TAB] @ key @ [COLON, TAB, DQUOTE]
          else [TAB] @ key @ [COLON, SPC, DQUOTE])
       @ writeQuoted_loop True False False v
       @ [DQUOTE, LF]"

definition writeField :: "str \<Rightarrow> str \<Rightarrow> str \<Rightarrow> str" where
  "writeField key v w =
     (if Contains v LF then writeQuoted key v w
      else if len key < 6 then w @ [TAB] @ key @ [COLON, TAB] @ v @ [LF]
      else w @ [TAB] @ key @ [COLON, SPC] @ v @ [LF])"

text \<open>The loop of \<open>Write\<close> over the keys.\<close>

fun Write_fields :: "(rune \<Rightarrow> rune) \<Rightarrow> Record \<Rightarrow> str list \<Rightarrow> str \<Rightarrow> str" where
  "Write_fields tbl rec [] w = w"
| "Write_fields tbl rec (key # keys) w =
     (if Get tbl rec key = [] then Write_fields tbl rec keys w
      else Write_fields tbl rec keys (writeField key (Get tbl rec key) w))"

definition Write :: "(rune \<Rightarrow> rune) \<Rightarrow> Record \<Rightarrow> str \<Rightarrow> str" where
  "Write tbl rec w =
     (if length (Keys rec) = 0 then w
      else if ID rec = [] \<or> Type rec = [] then w
      else Write_fields tbl rec (Keys rec) (w @ [AT] @ Type rec @ [EQS] @ ID rec @ [LF]))"

section \<open>Notions used in the properties\<close>

text \<open>A run of \<open>Set\<close> calls, in order.\<close>

fun Sets :: "(rune \<Rightarrow> rune) \<Rightarrow> Record \<Rightarrow> (str \<times> str) list \<Rightarrow> Record" where
  "Sets tbl r [] = r"
| "Sets tbl r ((key, v) # ops) = Sets tbl (Set tbl r key v) ops"

text \<open>No entry of the record has an empty key or an empty value.\<close>

definition fields_ok :: "Record \<Rightarrow> bool" where
  "fields_ok r \<longleftrightarrow> (\<forall>(k, v) \<in> set (r_data r). k \<noteq> [] \<and> v \<noteq> [])"

text \<open>The control fields of the scanner, which reading never touches.\<close>

definition frame :: "Scanner \<Rightarrow> Scanner \<Rightarrow> bool" where
  "frame s s' \<longleftrightarrow>
     s_closed s' = s_closed s \<and> s_err s' = s_err s \<and> s_fin s' = s_fin s \<and> s_rec s' = s_rec s"

text \<open>The scanner \<open>s\<close> with its reader at the text \<open>r\<close>, its line counter at \<open>l\<close> and its
  buffer holding \<open>b\<close>.  Every scanner is of this form.\<close>

definition cursor :: "Scanner \<Rightarrow> str \<Rightarrow> nat \<Rightarrow> str \<Rightarrow> Scanner" where
  "cursor s r l b = s\<lparr>s_r := r, s_line := l, s_b := b\<rparr>"

text \<open>A key that the scanner reads back as it is: not empty, without white space or
  colon, and not opening a comment or a header.\<close>

definition plainKey :: "str \<Rightarrow> bool" where
  "plainKey k \<longleftrightarrow>
     k \<noteq> [] \<and> hd k \<noteq> HASH \<and> hd k \<noteq> AT \<and> (\<forall>x \<in> set k. \<not> isSpace x \<and> x \<noteq> COLON)"

text \<open>
  From \<open>s\<close> to \<open>s'\<close> the reader has moved over a piece of the text, and the line counter
  has grown by at least the number of newlines in that piece; for \<open>counted_plain\<close>, when
  the piece has no backslash.
\<close>

definition counted_plain :: "Scanner \<Rightarrow> Scanner \<Rightarrow> bool" where
  "counted_plain s s' \<longleftrightarrow>
     (\<exists>pre. s_r s = pre @ s_r s' \<and>
        (BSLASH \<notin> set pre \<longrightarrow> s_line s + count_list pre LF \<le> s_line s'))"

definition counted :: "Scanner \<Rightarrow> Scanner \<Rightarrow> bool" where
  "counted s s' \<longleftrightarrow> (\<exists>pre. s_r s = pre @ s_r s' \<and> s_line s + count_list pre LF \<le> s_line s')"

text \<open>A word of a quoted value that needs no escape: not empty, without white space,
  quotation mark or backslash.\<close>

definition plainWord :: "str \<Rightarrow> bool" where
  "plainWord u \<longleftrightarrow> u \<noteq> [] \<and> (\<forall>c \<in> set u. \<not> isSpace c \<and> c \<noteq> DQUOTE \<and> c \<noteq> BSLASH)"

text \<open>
  The text after an opening quotation mark has a closing one: a quotation mark that is
  not escaped.  A backslash escapes the rune that \<open>readRune\<close> gives next, which is two
  runes of the text for \<^verbatim>\<open>\r\n\<close>.
\<close>

fun unescaped_quote :: "str \<Rightarrow> bool" where
  "unescaped_quote [] = False"
| "unescaped_quote (c # cs) =
     (if c = DQUOTE then True
      else if c = BSLASH then
        (case cs of
           [] \<Rightarrow> False
         | d # ds \<Rightarrow>
             if d = CR then
               (case ds of
                  [] \<Rightarrow> False
                | e # es \<Rightarrow> if e = LF then unescaped_quote es else unescaped_quote ds)
             else unescaped_quote ds)
      else unescaped_quote cs)"

section \<open>Evaluation on concrete inputs\<close>

lemmas rec_eval = NewRecord_def Set_def Get_def Keys_def normKey_def ToLower_def toLower_def
  Fields_def TrimSpace_def isSpace_def AList.delete_eq ID_def Type_def

lemmas scan_eval = Scan_def Scan_loop.simps parseRecord_def parseHeader.simps parseFields.simps
  parseKey_def parseKey_seek.simps parseKey_read.simps parseValue.simps quoteValue_def
  quoteValue_loop.simps skip.simps readRune_def ReadRune_def UnreadRune_def ReadString_def
  NewScanner_def headerLine_def Index_def Record_m_def Err_def

lemmas write_eval = Write_def writeField_def writeQuoted_def Contains_def len_def RuneLen_def

section \<open>Record: fields are never empty\<close>

lemma TrimSpace_blank: "(\<forall>c \<in> set v. isSpace c) \<Longrightarrow> TrimSpace v = []"
  by (auto simp: TrimSpace_def dest: set_dropWhileD)

lemma set_delete_subset: "set (AList.delete k al) \<subseteq> set al"
  by (auto simp: AList.delete_eq)

lemma set_update_subset: "set (AList.update k v al) \<subseteq> insert (k, v) (set al)"
  by (induction al) auto

lemma Set_fields_ok: "fields_ok r \<Longrightarrow> fields_ok (Set tbl r key v)"
  using set_delete_subset [of "normKey tbl key" "r_data r"]
    set_update_subset [of "normKey tbl key" "TrimSpace v" "r_data r"]
  by (fastforce simp: fields_ok_def Set_def Let_def)

lemma Sets_fields_ok: "fields_ok r \<Longrightarrow> fields_ok (Sets tbl r ops)"
  by (induction ops arbitrary: r) (auto simp: Set_fields_ok)

lemma NewRecord_fields_ok: "NewRecord tbl t i = Some r \<Longrightarrow> fields_ok r"
  by (auto simp: NewRecord_def Let_def fields_ok_def split: if_splits)

lemma set_Keys: "set (Keys r) = fst ` set (r_data r)"
  by (auto simp: Keys_def)

lemma Set_blank_removes:
  assumes "fields_ok r" "TrimSpace v = []"
  shows "Get tbl (Set tbl r key v) key = [] \<and> normKey tbl key \<notin> set (Keys (Set tbl r key v))"
proof (cases "normKey tbl key = []")
  case True
  from assms(1) have "[] \<notin> fst ` set (r_data r)" by (force simp: fields_ok_def)
  then have "map_of (r_data r) [] = None" by (simp add: map_of_eq_None_iff)
  with True \<open>[] \<notin> fst ` set (r_data r)\<close> show ?thesis
    by (simp add: Set_def Get_def set_Keys)
next
  case False
  with assms(2) show ?thesis
    by (simp add: Set_def Get_def set_Keys AList.delete_conv AList.delete_notin_dom)
qed

text \<open>
  Claim C8.  Take any record made by \<open>NewRecord\<close> and apply any run of \<open>Set\<close> calls to
  it.  Then no field of the record holds the empty string; and a further \<open>Set\<close> of a key
  to a value that is empty or all white space removes the normalised key: \<open>Get\<close> of that
  key gives the empty string and \<open>Keys\<close> does not list it.
\<close>

theorem record_empty_field_invariant:
  assumes "NewRecord tbl typ0 id0 = Some rec0"
  shows "(\<forall>(k, v) \<in> set (r_data (Sets tbl rec0 ops)). v \<noteq> []) \<and>
         ((\<forall>c \<in> set v. isSpace c) \<longrightarrow>
            Get tbl (Set tbl (Sets tbl rec0 ops) key v) key = [] \<and>
            normKey tbl key \<notin> set (Keys (Set tbl (Sets tbl rec0 ops) key v)))"
proof -
  have ok: "fields_ok (Sets tbl rec0 ops)"
    using assms by (intro Sets_fields_ok NewRecord_fields_ok)
  then have "\<forall>(k, v) \<in> set (r_data (Sets tbl rec0 ops)). v \<noteq> []"
    by (auto simp: fields_ok_def)
  moreover have "(\<forall>c \<in> set v. isSpace c) \<longrightarrow>
            Get tbl (Set tbl (Sets tbl rec0 ops) key v) key = [] \<and>
            normKey tbl key \<notin> set (Keys (Set tbl (Sets tbl rec0 ops) key v))"
    using Set_blank_removes [OF ok TrimSpace_blank] by blast
  ultimately show ?thesis by blast
qed

text \<open>
  The record \<^verbatim>\<open>@t=i\<close> after \<^verbatim>\<open>Set("K", " v")\<close> and \<^verbatim>\<open>Set("j", "w")\<close> holds \<^verbatim>\<open>k = v\<close> and
  \<^verbatim>\<open>j = w\<close>; \<^verbatim>\<open>Set("K", " \t")\<close> then removes \<^verbatim>\<open>k\<close>.
\<close>

theorem record_empty_field_invariant_witness:
  "NewRecord id [116] [105] = Some \<lparr>r_id = [105], r_typ = [116], r_data = []\<rparr> \<and>
   isSpace SPC \<and> isSpace TAB \<and>
   r_data (Sets id \<lparr>r_id = [105], r_typ = [116], r_data = []\<rparr> [([75], [SPC, 118]), ([106], [119])])
     = [([107], [118]), ([106], [119])] \<and>
   Get id (Set id (Sets id \<lparr>r_id = [105], r_typ = [116], r_data = []\<rparr>
        [([75], [SPC, 118]), ([106], [119])]) [75] [SPC, TAB]) [75] = [] \<and>
   normKey id [75] \<notin> set (Keys (Set id (Sets id \<lparr>r_id = [105], r_typ = [116], r_data = []\<rparr>
        [([75], [SPC, 118]), ([106], [119])]) [75] [SPC, TAB]))"
proof -
  have h: "NewRecord id [116] [105] = Some \<lparr>r_id = [105], r_typ = [116], r_data = []\<rparr>"
    by (simp add: rec_eval)
  have b: "isSpace SPC" "isSpace TAB" by (simp_all add: isSpace_def)
  then have b': "\<forall>c \<in> set [SPC, TAB]. isSpace c" by simp
  have d: "r_data (Sets id \<lparr>r_id = [105], r_typ = [116], r_data = []\<rparr> [([75], [SPC, 118]), ([106], [119])])
     = [([107], [118]), ([106], [119])]"
    by (simp add: rec_eval)
  from record_empty_field_invariant [OF h, of "[([75], [SPC, 118]), ([106], [119])]" "[SPC, TAB]" "[75]"] h b b' d
  show ?thesis by blast
qed

section \<open>Writer: fields on one line\<close>

text \<open>
  Claim C9, as amended.  A field whose value has no newline is written as one unquoted
  line that starts with a tab: tab, key, colon, then a tab when the key is shorter than
  6 bytes and a space otherwise, then the value and a newline.
\<close>

theorem writeField_single_line:
  "\<not> Contains v LF \<Longrightarrow>
   writeField key v w = w @ [TAB] @ key @ [COLON, if len key < 6 then TAB else SPC] @ v @ [LF]"
  by (simp add: writeField_def)

text \<open>The fields \<^verbatim>\<open>k = v\<close> and \<^verbatim>\<open>longkey = v\<close>.\<close>

theorem writeField_single_line_witness:
  "\<not> Contains [118] LF \<and> writeField [107] [118] [] = [TAB, 107, COLON, TAB, 118, LF] \<and>
   writeField [108, 111, 110, 103, 107, 101, 121] [118] []
     = [TAB, 108, 111, 110, 103, 107, 101, 121, COLON, SPC, 118, LF]"
  using writeField_single_line [of "[118]" "[107]" "[]"]
    writeField_single_line [of "[118]" "[108, 111, 110, 103, 107, 101, 121]" "[]"]
  by (simp add: Contains_def len_def RuneLen_def)

text \<open>Claim C9 as stated fails: the line written for \<^verbatim>\<open>k = v\<close> is not \<^verbatim>\<open>k:<tab>v\n\<close>,
  since it starts with a tab.\<close>

theorem writeField_no_indent_counterexample:
  "\<not> Contains [118] LF \<and> len [107] < 6 \<and>
   writeField [107] [118] [] \<noteq> [107, COLON, TAB, 118, LF]"
  by (simp add: writeField_def Contains_def len_def RuneLen_def)

section \<open>Scanner: the control fields\<close>

lemma frame_refl [simp]: "frame s s"
  by (simp add: frame_def)

lemma frame_trans: "frame s s1 \<Longrightarrow> frame s1 s2 \<Longrightarrow> frame s s2"
  by (simp add: frame_def)

lemma frame_upd [simp]:
  "frame s (s'\<lparr>s_r := x\<rparr>) = frame s s'"
  "frame s (s'\<lparr>s_line := n\<rparr>) = frame s s'"
  "frame s (s'\<lparr>s_b := b\<rparr>) = frame s s'"
  "frame (s\<lparr>s_r := x\<rparr>) s' = frame s s'"
  "frame (s\<lparr>s_line := n\<rparr>) s' = frame s s'"
  "frame (s\<lparr>s_b := b\<rparr>) s' = frame s s'"
  by (simp_all add: frame_def)

lemma readRune_frame: "readRune s = (x, s') \<Longrightarrow> frame s s'"
  by (auto simp: readRune_def ReadRune_def UnreadRune_def split: list.splits if_splits)

lemma ReadString_frame: "ReadString d s = (x, s') \<Longrightarrow> frame s s'"
  by (auto simp: ReadString_def split: if_splits)

lemma skip_frame: "frame s (skip d s)"
proof (induction "length (s_r s)" arbitrary: s rule: less_induct)
  case less
  obtain x s1 where rr: "readRune s = (x, s1)" by force
  note f1 = readRune_frame [OF rr]
  show ?case
  proof (cases x)
    case (Inl e)
    with rr f1 show ?thesis by (simp add: skip.simps [of d s])
  next
    case (Inr r1)
    with rr have "length (s_r s1) < length (s_r s)" by (auto dest: readRune_less)
    from less.hyps [OF this] f1 have "frame s (skip d s1)" by (rule frame_trans [rotated])
    with rr Inr f1 show ?thesis by (simp add: skip.simps [of d s])
  qed
qed

lemma readRune_props:
  "readRune s = (x, s1) \<Longrightarrow>
     frame s s1 \<and> length (s_r s1) \<le> length (s_r s) \<and>
     (\<forall>c. x = Inr c \<longrightarrow> length (s_r s1) < length (s_r s))"
  by (auto dest: readRune_frame readRune_le readRune_less)

lemma skip_less_trans: "length (s_r t) < n \<Longrightarrow> length (s_r (skip d t)) < n"
  using skip_le [of d t] by simp

lemmas skip_ctl [simp] = skip_frame [unfolded frame_def]

lemma parseKey_seek_frame: "parseKey_seek s = (x, s') \<Longrightarrow> frame s s'"
proof (induction "length (s_r s)" arbitrary: s rule: less_induct)
  case less
  show ?case using less.prems
    apply (subst (asm) parseKey_seek.simps)
    apply (auto simp: UnreadRune_def frame_def skip_less_trans
           split: prod.splits sum.splits if_splits
           dest!: readRune_props less.hyps [rotated, unfolded frame_def])
    done
qed

lemma parseKey_read_frame: "parseKey_read sp s = (x, s') \<Longrightarrow> frame s s'"
proof (induction "length (s_r s)" arbitrary: s sp rule: less_induct)
  case less
  show ?case using less.prems
    apply (subst (asm) parseKey_read.simps)
    apply (auto simp: frame_def
           split: prod.splits sum.splits if_splits
           dest!: readRune_props less.hyps [rotated, unfolded frame_def])
    done
qed

lemma quoteValue_loop_frame: "quoteValue_loop f sp l s = (x, s') \<Longrightarrow> frame s s'"
proof (induction "length (s_r s)" arbitrary: s f sp l rule: less_induct)
  case less
  show ?case using less.prems
    apply (subst (asm) quoteValue_loop.simps)
    apply (auto simp: frame_def
           split: prod.splits sum.splits if_splits
           dest!: readRune_props less.hyps [rotated, unfolded frame_def])
    done
qed

lemma parseKey_frame: "parseKey s = (x, s') \<Longrightarrow> frame s s'"
  by (auto simp: parseKey_def frame_def split: prod.splits sum.splits if_splits
      dest!: parseKey_seek_frame [unfolded frame_def] parseKey_read_frame [unfolded frame_def])

lemma quoteValue_frame: "quoteValue s = (x, s') \<Longrightarrow> frame s s'"
  by (auto simp: quoteValue_def dest!: quoteValue_loop_frame)

lemma parseValue_frame: "parseValue s = (x, s') \<Longrightarrow> frame s s'"
proof (induction "length (s_r s)" arbitrary: s rule: less_induct)
  case less
  show ?case using less.prems
    apply (subst (asm) parseValue.simps)
    apply (auto simp: frame_def UnreadRune_def
           split: prod.splits sum.splits if_splits option.splits
           dest!: readRune_props less.hyps [rotated, unfolded frame_def]
                  quoteValue_frame [unfolded frame_def] ReadString_frame [unfolded frame_def])
    done
qed

lemma parseHeader_frame: "parseHeader tbl s = (x, s') \<Longrightarrow> frame s s'"
proof (induction "length (s_r s)" arbitrary: s rule: less_induct)
  case less
  obtain line oe s1 where rs: "ReadString LF (s\<lparr>s_line := s_line s + 1\<rparr>) = ((line, oe), s1)"
    by (metis surj_pair)
  from ReadString_frame [OF rs] have f1: "frame s s1" by simp
  show ?case
  proof (cases oe)
    case (Some e)
    with rs less.prems f1 show ?thesis
      by (auto simp: parseHeader.simps [of tbl s] split: if_splits)
  next
    case None
    with rs have lt: "length (s_r s1) < length (s_r s)" by (auto dest: ReadString_less)
    show ?thesis
    proof (cases "headerLine tbl line")
      case (Some r)
      with rs None less.prems f1 show ?thesis by (simp add: parseHeader.simps [of tbl s])
    next
      case hn: None
      with rs None less.prems have "parseHeader tbl s1 = (x, s')"
        by (simp add: parseHeader.simps [of tbl s])
      from less.hyps [OF lt this] f1 show ?thesis by (rule frame_trans [rotated])
    qed
  qed
qed

lemma parseFields_frame: "parseFields tbl rec s = (rec', s') \<Longrightarrow> frame s s'"
proof (induction "length (s_r s)" arbitrary: s rec rule: less_induct)
  case less
  obtain x s1 where pk: "parseKey s = (x, s1)" by force
  note f1 = parseKey_frame [OF pk]
  show ?case
  proof (cases x)
    case (Inl e)
    with pk less.prems f1 show ?thesis by (simp add: parseFields.simps [of tbl rec s])
  next
    case (Inr kd)
    obtain key delim where kd: "kd = (key, delim)" by force
    consider (at) "delim = AT" | (nl) "delim \<noteq> AT" "delim = LF"
      | (val) "delim \<noteq> AT" "delim \<noteq> LF" by blast
    then show ?thesis
    proof cases
      case at
      with pk Inr kd less.prems f1 show ?thesis
        by (simp add: parseFields.simps [of tbl rec s])
    next
      case nl
      with pk Inr kd have lt: "length (s_r s1) < length (s_r s)"
        by (auto dest: parseKey_less)
      from nl pk Inr kd less.prems have "parseFields tbl rec s1 = (rec', s')"
        by (simp add: parseFields.simps [of tbl rec s])
      from less.hyps [OF lt this] f1 show ?thesis by (rule frame_trans [rotated])
    next
      case val
      with pk Inr kd have lt: "length (s_r s1) < length (s_r s)"
        by (auto dest: parseKey_less)
      obtain y s2 where pv: "parseValue s1 = (y, s2)" by force
      note le2 = parseValue_le [OF pv]
      from f1 parseValue_frame [OF pv] have f2: "frame s s2" by (rule frame_trans)
      show ?thesis
      proof (cases y)
        case (Inl e)
        with val pk Inr kd pv less.prems f2 show ?thesis
          by (simp add: parseFields.simps [of tbl rec s])
      next
        case yr: (Inr v)
        with val pk Inr kd pv less.prems
        have pf: "parseFields tbl (Set tbl rec key v) s2 = (rec', s')"
          by (simp add: parseFields.simps [of tbl rec s])
        from lt le2 have "length (s_r s2) < length (s_r s)" by simp
        from less.hyps [OF this pf] f2 show ?thesis by (rule frame_trans [rotated])
      qed
    qed
  qed
qed

lemma parseRecord_frame: "parseRecord tbl s = (x, s') \<Longrightarrow> frame s s'"
  by (auto simp: parseRecord_def split: prod.splits sum.splits
      dest!: parseHeader_frame parseFields_frame intro: frame_trans)

lemma Scan_loop_False:
  "Scan_loop tbl s = (False, s') \<Longrightarrow> s_rec s' = s_rec s \<and> s_fin s' = s_fin s \<and> s_closed s'"
proof (induction "length (s_r s)" arbitrary: s rule: less_induct)
  case less
  obtain x s1 where pr: "parseRecord tbl s = (x, s1)" by force
  note f1 = parseRecord_frame [OF pr, unfolded frame_def]
  show ?case
  proof (cases x)
    case (Inl e)
    with pr less.prems f1 show ?thesis
      by (auto simp: Scan_loop.simps [of tbl s] split: if_splits)
  next
    case (Inr rec)
    with pr have lt: "length (s_r s1) < length (s_r s)" by (auto dest: parseRecord_less)
    from pr Inr less.prems have "length (r_data rec) = 0 \<and> Scan_loop tbl s1 = (False, s')"
      by (auto simp: Scan_loop.simps [of tbl s] split: if_splits)
    then have "Scan_loop tbl s1 = (False, s')" by simp
    from less.hyps [OF lt this] f1 show ?thesis by simp
  qed
qed

lemma Scan_loop_True:
  "Scan_loop tbl s = (True, s') \<Longrightarrow> \<exists>rec. s_rec s' = Some rec \<and> r_data rec \<noteq> []"
proof (induction "length (s_r s)" arbitrary: s rule: less_induct)
  case less
  obtain x s1 where pr: "parseRecord tbl s = (x, s1)" by force
  show ?case
  proof (cases x)
    case (Inl e)
    with pr less.prems show ?thesis
      by (auto simp: Scan_loop.simps [of tbl s] split: if_splits)
  next
    case (Inr rec)
    with pr have lt: "length (s_r s1) < length (s_r s)" by (auto dest: parseRecord_less)
    show ?thesis
    proof (cases "r_data rec = []")
      case True
      with pr Inr less.prems have "Scan_loop tbl s1 = (True, s')"
        by (simp add: Scan_loop.simps [of tbl s])
      from less.hyps [OF lt this] show ?thesis .
    next
      case False
      with pr Inr less.prems show ?thesis
        by (auto simp: Scan_loop.simps [of tbl s])
    qed
  qed
qed

section \<open>Scan: records without fields are dropped\<close>

lemma Keys_Nil: "Keys r = [] \<longleftrightarrow> r_data r = []"
proof -
  have "length (sort (map fst (r_data r))) = length (r_data r)" by simp
  then have "sort (map fst (r_data r)) = [] \<longleftrightarrow> r_data r = []"
    by (metis length_0_conv)
  then show ?thesis by (simp add: Keys_def)
qed

text \<open>
  Claim C5.  When \<open>Scan\<close> reports a record, that record has at least one field.  A record
  that \<open>parseRecord\<close> assembles with no field is dropped: \<open>Scan\<close> goes on from the state
  after it, seeking the next header.
\<close>

theorem Scan_zero_field_filtering:
  "(Scan tbl s = (True, s') \<longrightarrow> (\<exists>rec. s_rec s' = Some rec \<and> Keys rec \<noteq> [])) \<and>
   (\<not> s_closed s \<and> parseRecord tbl s = (Inr rec0, s1) \<and> Keys rec0 = []
      \<longrightarrow> Scan tbl s = Scan tbl s1)"
proof (intro conjI impI)
  assume "Scan tbl s = (True, s')"
  then have "Scan_loop tbl s = (True, s')" by (simp add: Scan_def split: if_splits)
  from Scan_loop_True [OF this] show "\<exists>rec. s_rec s' = Some rec \<and> Keys rec \<noteq> []"
    by (simp add: Keys_Nil)
next
  assume a: "\<not> s_closed s \<and> parseRecord tbl s = (Inr rec0, s1) \<and> Keys rec0 = []"
  then have "frame s s1" by (auto dest: parseRecord_frame)
  with a have c: "\<not> s_closed s1" by (simp add: frame_def)
  from a have "Scan_loop tbl s = Scan_loop tbl s1"
    by (simp add: Scan_loop.simps [of tbl s] Keys_Nil)
  with a c show "Scan tbl s = Scan tbl s1" by (simp add: Scan_def)
qed

text \<open>The input \<^verbatim>\<open>@a=b\n@c=d\nk:v\n\<close>: the record \<^verbatim>\<open>a=b\<close> has no field and is dropped,
  \<open>Scan\<close> reports \<^verbatim>\<open>c=d\<close>.\<close>

theorem Scan_zero_field_filtering_witness:
  "Scan id (NewScanner [AT, 97, EQS, 98, LF, AT, 99, EQS, 100, LF, 107, COLON, 118, LF] EOF)
     = (True, \<lparr>s_closed = False, s_err = None, s_r = [], s_fin = EOF, s_line = 2,
          s_rec = Some \<lparr>r_id = [100], r_typ = [99], r_data = [([107], [118])]\<rparr>, s_b = [107]\<rparr>) \<and>
   Keys \<lparr>r_id = [100], r_typ = [99], r_data = [([107], [118])]\<rparr> \<noteq> [] \<and>
   \<not> s_closed (NewScanner [AT, 97, EQS, 98, LF, AT, 99, EQS, 100, LF, 107, COLON, 118, LF] EOF) \<and>
   parseRecord id (NewScanner [AT, 97, EQS, 98, LF, AT, 99, EQS, 100, LF, 107, COLON, 118, LF] EOF)
     = (Inr \<lparr>r_id = [98], r_typ = [97], r_data = []\<rparr>,
        \<lparr>s_closed = False, s_err = None, s_r = [AT, 99, EQS, 100, LF, 107, COLON, 118, LF],
          s_fin = EOF, s_line = 1, s_rec = None, s_b = []\<rparr>) \<and>
   Keys \<lparr>r_id = [98], r_typ = [97], r_data = []\<rparr> = [] \<and>
   Scan id (NewScanner [AT, 97, EQS, 98, LF, AT, 99, EQS, 100, LF, 107, COLON, 118, LF] EOF)
     = Scan id \<lparr>s_closed = False, s_err = None, s_r = [AT, 99, EQS, 100, LF, 107, COLON, 118, LF],
          s_fin = EOF, s_line = 1, s_rec = None, s_b = []\<rparr>"
proof -
  let ?s0 = "NewScanner [AT, 97, EQS, 98, LF, AT, 99, EQS, 100, LF, 107, COLON, 118, LF] EOF"
  let ?s1 = "\<lparr>s_closed = False, s_err = None, s_r = [AT, 99, EQS, 100, LF, 107, COLON, 118, LF],
          s_fin = EOF, s_line = 1, s_rec = None, s_b = []\<rparr>"
  have sc: "Scan id ?s0
     = (True, \<lparr>s_closed = False, s_err = None, s_r = [], s_fin = EOF, s_line = 2,
          s_rec = Some \<lparr>r_id = [100], r_typ = [99], r_data = [([107], [118])]\<rparr>, s_b = [107]\<rparr>)"
    by (simp add: scan_eval rec_eval)
  have pr: "parseRecord id ?s0 = (Inr \<lparr>r_id = [98], r_typ = [97], r_data = []\<rparr>, ?s1)"
    by (simp add: scan_eval rec_eval)
  have k: "Keys \<lparr>r_id = [98], r_typ = [97], r_data = []\<rparr> = []"
    "Keys \<lparr>r_id = [100], r_typ = [99], r_data = [([107], [118])]\<rparr> \<noteq> []"
    by (simp_all add: Keys_def)
  have c: "\<not> s_closed ?s0" by (simp add: NewScanner_def)
  from Scan_zero_field_filtering [of id ?s0 _ "\<lparr>r_id = [98], r_typ = [97], r_data = []\<rparr>" ?s1]
    sc pr k c
  show ?thesis by simp
qed

section \<open>Record: the pending record\<close>

text \<open>
  Claim C10, as amended.  \<open>Record\<close> panics when no record is pending: on a new scanner,
  on a second call in a row, and after a \<open>Scan\<close> that returned false when no record was
  pending before that \<open>Scan\<close>.
\<close>

theorem Record_panics_without_pending_record:
  "Record_m (NewScanner input fin) = Inl ''Record called without Scan'' \<and>
   (Record_m s = Inr (rec, s1) \<longrightarrow> Record_m s1 = Inl ''Record called without Scan'') \<and>
   (s_rec t = None \<and> Scan tbl t = (False, t1)
      \<longrightarrow> Record_m t1 = Inl ''Record called without Scan'')"
proof (intro conjI impI)
  show "Record_m (NewScanner input fin) = Inl ''Record called without Scan''"
    by (simp add: Record_m_def NewScanner_def)
next
  assume "Record_m s = Inr (rec, s1)"
  then show "Record_m s1 = Inl ''Record called without Scan''"
    by (auto simp: Record_m_def split: option.splits)
next
  assume a: "s_rec t = None \<and> Scan tbl t = (False, t1)"
  have "s_rec t1 = s_rec t"
  proof (cases "s_closed t")
    case True
    with a show ?thesis by (simp add: Scan_def)
  next
    case False
    with a have "Scan_loop tbl t = (False, t1)" by (simp add: Scan_def)
    from Scan_loop_False [OF this] show ?thesis by simp
  qed
  with a show "Record_m t1 = Inl ''Record called without Scan''"
    by (simp add: Record_m_def)
qed

text \<open>The states after scanning \<^verbatim>\<open>@a=b\nk:v\n\<close>.\<close>

theorem Record_panics_without_pending_record_witness:
  "Record_m \<lparr>s_closed = False, s_err = None, s_r = [], s_fin = EOF, s_line = 1,
       s_rec = Some \<lparr>r_id = [98], r_typ = [97], r_data = [([107], [118])]\<rparr>, s_b = [107]\<rparr>
     = Inr (\<lparr>r_id = [98], r_typ = [97], r_data = [([107], [118])]\<rparr>,
            \<lparr>s_closed = False, s_err = None, s_r = [], s_fin = EOF, s_line = 1,
               s_rec = None, s_b = [107]\<rparr>) \<and>
   Record_m \<lparr>s_closed = False, s_err = None, s_r = [], s_fin = EOF, s_line = 1,
               s_rec = None, s_b = [107]\<rparr> = Inl ''Record called without Scan'' \<and>
   s_rec \<lparr>s_closed = False, s_err = None, s_r = [], s_fin = EOF, s_line = 1,
               s_rec = None, s_b = [107]\<rparr> = None \<and>
   Scan id \<lparr>s_closed = False, s_err = None, s_r = [], s_fin = EOF, s_line = 1,
               s_rec = None, s_b = [107]\<rparr>
     = (False, \<lparr>s_closed = True, s_err = None, s_r = [], s_fin = EOF, s_line = 2,
               s_rec = None, s_b = [107]\<rparr>) \<and>
   Record_m \<lparr>s_closed = True, s_err = None, s_r = [], s_fin = EOF, s_line = 2,
               s_rec = None, s_b = [107]\<rparr> = Inl ''Record called without Scan''"
proof -
  let ?s = "\<lparr>s_closed = False, s_err = None, s_r = [], s_fin = EOF, s_line = 1,
       s_rec = Some \<lparr>r_id = [98], r_typ = [97], r_data = [([107], [118])]\<rparr>, s_b = [107]\<rparr>"
  let ?s1 = "\<lparr>s_closed = False, s_err = None, s_r = [], s_fin = EOF, s_line = 1,
               s_rec = None, s_b = [107]\<rparr>"
  let ?s2 = "\<lparr>s_closed = True, s_err = None, s_r = [], s_fin = EOF, s_line = 2,
               s_rec = None, s_b = [107]\<rparr>"
  have r: "Record_m ?s = Inr (\<lparr>r_id = [98], r_typ = [97], r_data = [([107], [118])]\<rparr>, ?s1)"
    by (simp add: Record_m_def)
  have sc: "Scan id ?s1 = (False, ?s2)"
    by (simp add: scan_eval rec_eval)
  from Record_panics_without_pending_record
         [of "[]" EOF ?s "\<lparr>r_id = [98], r_typ = [97], r_data = [([107], [118])]\<rparr>" ?s1 ?s1 id ?s2]
    r sc
  show ?thesis by simp
qed

text \<open>
  Claim C10 as stated fails.  On \<^verbatim>\<open>@a=b\nk:v\n\<close> the first \<open>Scan\<close> returns true; when the
  record is not taken, the second \<open>Scan\<close> returns false and leaves it pending, and
  \<open>Record\<close> then returns it instead of panicking.
\<close>

theorem Record_after_failed_Scan_counterexample:
  "Scan id (NewScanner [AT, 97, EQS, 98, LF, 107, COLON, 118, LF] EOF)
     = (True, \<lparr>s_closed = False, s_err = None, s_r = [], s_fin = EOF, s_line = 1,
          s_rec = Some \<lparr>r_id = [98], r_typ = [97], r_data = [([107], [118])]\<rparr>, s_b = [107]\<rparr>) \<and>
   Scan id \<lparr>s_closed = False, s_err = None, s_r = [], s_fin = EOF, s_line = 1,
          s_rec = Some \<lparr>r_id = [98], r_typ = [97], r_data = [([107], [118])]\<rparr>, s_b = [107]\<rparr>
     = (False, \<lparr>s_closed = True, s_err = None, s_r = [], s_fin = EOF, s_line = 2,
          s_rec = Some \<lparr>r_id = [98], r_typ = [97], r_data = [([107], [118])]\<rparr>, s_b = [107]\<rparr>) \<and>
   Record_m \<lparr>s_closed = True, s_err = None, s_r = [], s_fin = EOF, s_line = 2,
          s_rec = Some \<lparr>r_id = [98], r_typ = [97], r_data = [([107], [118])]\<rparr>, s_b = [107]\<rparr>
     = Inr (\<lparr>r_id = [98], r_typ = [97], r_data = [([107], [118])]\<rparr>,
            \<lparr>s_closed = True, s_err = None, s_r = [], s_fin = EOF, s_line = 2,
               s_rec = None, s_b = [107]\<rparr>)"
  by (simp add: scan_eval rec_eval)

section \<open>Scan: malformed headers and the end of the data\<close>

lemma takeWhile_neq: "c \<notin> set l \<Longrightarrow> takeWhile (\<lambda>x. x \<noteq> c) (l @ c # r) = l"
  by (induction l) auto

lemma dropWhile_neq: "c \<notin> set l \<Longrightarrow> dropWhile (\<lambda>x. x \<noteq> c) (l @ c # r) = c # r"
  by (induction l) auto

lemma ReadString_line:
  "LF \<notin> set l \<Longrightarrow> s_r s = l @ LF # rest \<Longrightarrow>
   ReadString LF s = ((l @ [LF], None), s\<lparr>s_r := rest\<rparr>)"
  by (simp add: ReadString_def takeWhile_neq dropWhile_neq)

lemma parseHeader_skip_line:
  assumes "headerLine tbl (l @ [LF]) = None" "LF \<notin> set l" "s_r s = l @ LF # rest"
  shows "parseHeader tbl s = parseHeader tbl (s\<lparr>s_line := s_line s + 1, s_r := rest\<rparr>)"
proof -
  from assms(3) have "s_r (s\<lparr>s_line := s_line s + 1\<rparr>) = l @ LF # rest" by simp
  from ReadString_line [OF assms(2) this] assms(1) show ?thesis
    by (simp add: parseHeader.simps [of tbl s])
qed

lemma headerLine_empty_type: "TrimSpace line = AT # EQS # x \<Longrightarrow> headerLine tbl line = None"
  by (simp add: headerLine_def Index_def)

lemma headerLine_empty_id:
  assumes "TrimSpace line = AT # t @ [EQS]" "EQS \<notin> set t"
  shows "headerLine tbl line = None"
proof -
  from assms(2) have tw: "takeWhile (\<lambda>x. x \<noteq> EQS) (t @ [EQS]) = t"
    by (rule takeWhile_neq)
  have "NewRecord tbl (take (length t) (t @ [EQS])) (drop (length t + 1) (t @ [EQS])) = None"
    by (simp add: NewRecord_def Let_def Fields_def)
  with assms(1) tw show ?thesis
    by (simp add: headerLine_def Index_def Let_def)
qed

lemma parseHeader_Inl_EOF:
  "parseHeader tbl s = (Inl e, s') \<Longrightarrow> s_fin s = EOF \<Longrightarrow> e = EOF"
proof (induction "length (s_r s)" arbitrary: s rule: less_induct)
  case less
  obtain line oe s1 where rs: "ReadString LF (s\<lparr>s_line := s_line s + 1\<rparr>) = ((line, oe), s1)"
    by (metis surj_pair)
  from ReadString_frame [OF rs] less.prems(2) have fin: "s_fin s1 = EOF" by (simp add: frame_def)
  show ?case
  proof (cases oe)
    case (Some e')
    with rs less.prems show ?thesis
      by (auto simp: parseHeader.simps [of tbl s] ReadString_def split: if_splits)
  next
    case None
    with rs have lt: "length (s_r s1) < length (s_r s)" by (auto dest: ReadString_less)
    show ?thesis
    proof (cases "headerLine tbl line")
      case (Some r)
      with rs None less.prems show ?thesis by (simp add: parseHeader.simps [of tbl s])
    next
      case hn: None
      with rs None less.prems have "parseHeader tbl s1 = (Inl e, s')"
        by (simp add: parseHeader.simps [of tbl s])
      from less.hyps [OF lt this fin] show ?thesis .
    qed
  qed
qed

lemma parseRecord_Inl_EOF:
  "parseRecord tbl s = (Inl e, s') \<Longrightarrow> s_fin s = EOF \<Longrightarrow> e = EOF"
  by (auto simp: parseRecord_def split: prod.splits sum.splits dest: parseHeader_Inl_EOF)

text \<open>
  Claim C4.  While a header is sought, a line that trims to \<^verbatim>\<open>@=...\<close> (empty type) or to
  \<^verbatim>\<open>@type=\<close> (empty ID) is skipped like any line that is no header: \<open>parseRecord\<close>, and
  with it \<open>Scan\<close>, goes on with the next line.  When the stream ends (with \<open>EOF\<close>) while
  a header is sought, \<open>parseRecord\<close> gives no record, and \<open>Scan\<close> returns false, leaves
  \<open>Err\<close> as it was (\<^verbatim>\<open>nil\<close> on a scanner that met no error before) and stores no record.
\<close>

theorem malformed_header_skipped_and_end_of_data:
  "(LF \<notin> set l \<and> s_r s = l @ LF # rest \<and>
      (TrimSpace (l @ [LF]) = AT # EQS # x \<or>
       TrimSpace (l @ [LF]) = AT # t @ [EQS] \<and> EQS \<notin> set t)
    \<longrightarrow> parseRecord tbl s = parseRecord tbl (s\<lparr>s_line := s_line s + 1, s_r := rest\<rparr>) \<and>
        (\<not> s_closed s \<longrightarrow>
           Scan tbl s = Scan tbl (s\<lparr>s_line := s_line s + 1, s_r := rest\<rparr>))) \<and>
   (\<not> s_closed u \<and> s_fin u = EOF \<and> parseRecord tbl u = (Inl e, u1)
    \<longrightarrow> Scan tbl u = (False, u1\<lparr>s_closed := True\<rparr>) \<and>
        Err (u1\<lparr>s_closed := True\<rparr>) = Err u \<and> s_rec (u1\<lparr>s_closed := True\<rparr>) = s_rec u)"
proof (intro conjI impI)
  assume a: "LF \<notin> set l \<and> s_r s = l @ LF # rest \<and>
      (TrimSpace (l @ [LF]) = AT # EQS # x \<or>
       TrimSpace (l @ [LF]) = AT # t @ [EQS] \<and> EQS \<notin> set t)"
  then have "headerLine tbl (l @ [LF]) = None"
    by (auto intro: headerLine_empty_type headerLine_empty_id)
  with a have h: "parseHeader tbl s = parseHeader tbl (s\<lparr>s_line := s_line s + 1, s_r := rest\<rparr>)"
    by (intro parseHeader_skip_line) auto
  then show p: "parseRecord tbl s = parseRecord tbl (s\<lparr>s_line := s_line s + 1, s_r := rest\<rparr>)"
    by (simp add: parseRecord_def)
  assume "\<not> s_closed s"
  moreover from p
  have "Scan_loop tbl s = Scan_loop tbl (s\<lparr>s_line := s_line s + 1, s_r := rest\<rparr>)"
    by (simp only: Scan_loop.simps [of tbl s]
        Scan_loop.simps [of tbl "s\<lparr>s_line := s_line s + 1, s_r := rest\<rparr>"])
  ultimately show "Scan tbl s = Scan tbl (s\<lparr>s_line := s_line s + 1, s_r := rest\<rparr>)"
    by (simp add: Scan_def)
next
  assume b: "\<not> s_closed u \<and> s_fin u = EOF \<and> parseRecord tbl u = (Inl e, u1)"
  then have e: "e = EOF" by (auto dest: parseRecord_Inl_EOF)
  with b show "Scan tbl u = (False, u1\<lparr>s_closed := True\<rparr>)"
    by (simp add: Scan_def Scan_loop.simps [of tbl u])
  from b have "frame u u1" by (auto dest: parseRecord_frame)
  then show "Err (u1\<lparr>s_closed := True\<rparr>) = Err u" "s_rec (u1\<lparr>s_closed := True\<rparr>) = s_rec u"
    by (simp_all add: Err_def frame_def)
qed


text \<open>The inputs \<^verbatim>\<open>@=x\n@a=b\nk:v\n\<close> and \<^verbatim>\<open> @t= \nx\<close>.\<close>

theorem malformed_header_skipped_and_end_of_data_witness:
  "parseRecord id (NewScanner [AT, EQS, 120, LF, AT, 97, EQS, 98, LF, 107, COLON, 118, LF] EOF)
     = parseRecord id ((NewScanner [AT, EQS, 120, LF, AT, 97, EQS, 98, LF, 107, COLON, 118, LF] EOF)
         \<lparr>s_line := 1, s_r := [AT, 97, EQS, 98, LF, 107, COLON, 118, LF]\<rparr>) \<and>
   Scan id (NewScanner [AT, EQS, 120, LF, AT, 97, EQS, 98, LF, 107, COLON, 118, LF] EOF)
     = Scan id ((NewScanner [AT, EQS, 120, LF, AT, 97, EQS, 98, LF, 107, COLON, 118, LF] EOF)
         \<lparr>s_line := 1, s_r := [AT, 97, EQS, 98, LF, 107, COLON, 118, LF]\<rparr>) \<and>
   parseRecord id (NewScanner [SPC, AT, 116, EQS, SPC, LF, 120] EOF)
     = parseRecord id ((NewScanner [SPC, AT, 116, EQS, SPC, LF, 120] EOF)
         \<lparr>s_line := 1, s_r := [120]\<rparr>) \<and>
   Scan id (NewScanner [SPC, AT, 116, EQS, SPC, LF, 120] EOF)
     = (False, (NewScanner [SPC, AT, 116, EQS, SPC, LF, 120] EOF)
                 \<lparr>s_line := 2, s_r := [], s_closed := True\<rparr>) \<and>
   Err ((NewScanner [SPC, AT, 116, EQS, SPC, LF, 120] EOF)
                 \<lparr>s_line := 2, s_r := [], s_closed := True\<rparr>) = None"
proof -
  let ?i1 = "[AT, EQS, 120, LF, AT, 97, EQS, 98, LF, 107, COLON, 118, LF]"
  let ?i2 = "[SPC, AT, 116, EQS, SPC, LF, 120]"
  let ?s1 = "NewScanner ?i1 EOF"
  let ?s2 = "NewScanner ?i2 EOF"
  note T = malformed_header_skipped_and_end_of_data
  have t1: "TrimSpace ([AT, EQS, 120] @ [LF]) = AT # EQS # [120]"
    and t2: "TrimSpace ([SPC, AT, 116, EQS, SPC] @ [LF]) = AT # [116] @ [EQS]"
    by (simp_all add: TrimSpace_def isSpace_def)
  have r1: "s_r ?s1 = [AT, EQS, 120] @ LF # [AT, 97, EQS, 98, LF, 107, COLON, 118, LF]"
    and r2: "s_r ?s2 = [SPC, AT, 116, EQS, SPC] @ LF # [120]"
    and c: "\<not> s_closed ?s1" "\<not> s_closed ?s2"
    and l: "s_line ?s1 + 1 = 1" "s_line ?s2 + 1 = 1"
    and f: "s_fin ?s2 = EOF" "Err ?s2 = None"
    by (simp_all add: NewScanner_def Err_def)
  have p: "parseRecord id ?s2 = (Inl EOF, ?s2\<lparr>s_line := 2, s_r := []\<rparr>)"
    by (simp add: scan_eval rec_eval)
  have "LF \<notin> set [AT, EQS, 120]" by simp
  with t1 r1 c(1)
  have w1: "parseRecord id ?s1 = parseRecord id (?s1\<lparr>s_line := s_line ?s1 + 1,
              s_r := [AT, 97, EQS, 98, LF, 107, COLON, 118, LF]\<rparr>)"
    and w2: "Scan id ?s1 = Scan id (?s1\<lparr>s_line := s_line ?s1 + 1,
              s_r := [AT, 97, EQS, 98, LF, 107, COLON, 118, LF]\<rparr>)"
    using T [THEN conjunct1, of "[AT, EQS, 120]" ?s1 _ "[120]" _ id] by blast+
  have "LF \<notin> set [SPC, AT, 116, EQS, SPC]" "EQS \<notin> set [116]" by simp_all
  with t2 r2
  have w3: "parseRecord id ?s2 = parseRecord id (?s2\<lparr>s_line := s_line ?s2 + 1, s_r := [120]\<rparr>)"
    using T [THEN conjunct1, of "[SPC, AT, 116, EQS, SPC]" ?s2 _ _ "[116]" id] by blast
  from c(2) f(1) p
  have w4: "Scan id ?s2 = (False, ?s2\<lparr>s_line := 2, s_r := [], s_closed := True\<rparr>)"
    and w5: "Err (?s2\<lparr>s_line := 2, s_r := [], s_closed := True\<rparr>) = Err ?s2"
    using T [THEN conjunct2, of ?s2 id EOF "?s2\<lparr>s_line := 2, s_r := []\<rparr>"] by blast+
  from w1 w2 w3 w4 w5 f(2) show ?thesis
    unfolding l by (intro conjI) simp_all
qed

section \<open>Scanner: reading a field line\<close>

lemma cursor_sel [simp]:
  "s_r (cursor s r l b) = r" "s_line (cursor s r l b) = l" "s_b (cursor s r l b) = b"
  "s_closed (cursor s r l b) = s_closed s" "s_err (cursor s r l b) = s_err s"
  "s_fin (cursor s r l b) = s_fin s" "s_rec (cursor s r l b) = s_rec s"
  by (simp_all add: cursor_def)

lemma cursor_upd [simp]:
  "(cursor s r l b)\<lparr>s_r := r'\<rparr> = cursor s r' l b"
  "(cursor s r l b)\<lparr>s_line := l'\<rparr> = cursor s r l' b"
  "(cursor s r l b)\<lparr>s_b := b'\<rparr> = cursor s r l b'"
  "cursor (cursor s r l b) r' l' b' = cursor s r' l' b'"
  by (simp_all add: cursor_def)

lemma cursor_id: "cursor s (s_r s) (s_line s) (s_b s) = s"
  by (simp add: cursor_def)

lemma cursor_NewScanner: "NewScanner input fin = cursor (NewScanner [] fin) input 0 []"
  by (simp add: cursor_def NewScanner_def)

lemma readRune_cursor:
  "readRune (cursor s [] l b) = (Inl (s_fin s), cursor s [] l b)"
  "c \<noteq> CR \<Longrightarrow> readRune (cursor s (c # cs) l b) = (Inr c, cursor s cs l b)"
  "readRune (cursor s (CR # LF # cs) l b) = (Inr LF, cursor s cs l b)"
  "d \<noteq> LF \<Longrightarrow> readRune (cursor s (CR # d # cs) l b) = (Inr CR, cursor s (d # cs) l b)"
  "readRune (cursor s [CR] l b) = (Inl (s_fin s), cursor s [] l b)"
  by (simp_all add: readRune_def ReadRune_def UnreadRune_def)

lemma notSpace_simps: "\<not> isSpace c \<Longrightarrow> c \<noteq> CR" "\<not> isSpace c \<Longrightarrow> c \<noteq> LF"
  "\<not> isSpace c \<Longrightarrow> c \<noteq> TAB" "\<not> isSpace c \<Longrightarrow> c \<noteq> SPC"
  by (auto simp: isSpace_def)

lemma isSpace_simps [simp]: "isSpace CR" "isSpace LF" "isSpace TAB" "isSpace SPC"
  "\<not> isSpace DQUOTE" "\<not> isSpace HASH" "\<not> isSpace COLON" "\<not> isSpace AT" "\<not> isSpace BSLASH"
  "\<not> isSpace EQS" "\<not> isSpace HYPHEN"
  by (simp_all add: isSpace_def)

text \<open>Blanks before a key.\<close>

lemma parseKey_seek_blanks:
  assumes "\<forall>x \<in> set ws. isSpace x \<and> x \<noteq> LF" "\<not> isSpace c" "c \<noteq> HASH"
  shows "parseKey_seek (cursor s (ws @ c # rest) l b) = (Inr c, cursor s (c # rest) l b)"
  using assms(1)
proof (induction ws)
  case Nil
  from assms(2,3) show ?case
    by (simp add: parseKey_seek.simps [of "cursor s (c # rest) l b"] readRune_cursor
        notSpace_simps UnreadRune_def)
next
  case (Cons x ws)
  show ?case
  proof (cases "x = CR")
    case False
    with Cons show ?thesis
      by (simp add: parseKey_seek.simps [of "cursor s (x # ws @ c # rest) l b"] readRune_cursor)
  next
    case True
    from assms(2) have cl: "c \<noteq> LF" by (rule notSpace_simps)
    show ?thesis
    proof (cases ws)
      case Nil
      with True Cons cl show ?thesis
        by (simp add: parseKey_seek.simps [of "cursor s (CR # c # rest) l b"] readRune_cursor)
    next
      case (Cons d ws')
      with True Cons.prems Cons.IH show ?thesis
        by (simp add: parseKey_seek.simps [of "cursor s (CR # d # ws' @ c # rest) l b"]
            readRune_cursor)
    qed
  qed
qed

lemma parseKey_read_plain:
  assumes "\<forall>x \<in> set k. \<not> isSpace x \<and> x \<noteq> COLON"
  shows "parseKey_read False (cursor s (k @ COLON # rest) l b)
           = (Inr (b @ k, COLON), cursor s rest l (b @ k))"
  using assms
proof (induction k arbitrary: b)
  case Nil
  show ?case
    by (simp add: parseKey_read.simps [of False "cursor s (COLON # rest) l b"] readRune_cursor)
next
  case (Cons x k)
  then have "x \<noteq> CR" "x \<noteq> LF" "\<not> isSpace x" "x \<noteq> COLON" by (auto dest: notSpace_simps)
  with Cons.IH [of "b @ [x]"] Cons.prems show ?case
    by (simp add: parseKey_read.simps [of False "cursor s (x # k @ COLON # rest) l b"]
        readRune_cursor)
qed

lemma parseKey_plain:
  assumes "\<forall>x \<in> set ws. isSpace x \<and> x \<noteq> LF" "plainKey k"
  shows "parseKey (cursor s (ws @ k @ COLON # rest) l b) = (Inr (k, COLON), cursor s rest l k)"
proof -
  from assms(2) obtain c k' where k: "k = c # k'" by (cases k) (auto simp: plainKey_def)
  with assms(2) have c: "\<not> isSpace c" "c \<noteq> HASH" "c \<noteq> AT"
    and all: "\<forall>x \<in> set k. \<not> isSpace x \<and> x \<noteq> COLON"
    by (auto simp: plainKey_def)
  from parseKey_seek_blanks [OF assms(1) c(1,2), of s "k' @ COLON # rest" l b]
    parseKey_read_plain [OF all, of s rest l "[]"] c(3) k
  show ?thesis by (simp add: parseKey_def)
qed


lemma parseValue_empty:
  assumes "\<forall>x \<in> set ws. isSpace x \<and> x \<noteq> LF"
  shows "parseValue (cursor s (ws @ LF # rest) l b) = (Inr [], cursor s rest (l + 1) b)"
  using assms
proof (induction ws)
  case Nil
  show ?case
    by (simp add: parseValue.simps [of "cursor s (LF # rest) l b"] readRune_cursor)
next
  case (Cons x ws)
  show ?case
  proof (cases "x = CR")
    case False
    with Cons show ?thesis
      by (simp add: parseValue.simps [of "cursor s (x # ws @ LF # rest) l b"] readRune_cursor)
  next
    case True
    show ?thesis
    proof (cases ws)
      case Nil
      with True show ?thesis
        by (simp add: parseValue.simps [of "cursor s (CR # LF # rest) l b"] readRune_cursor)
    next
      case (Cons d ws')
      with True Cons.prems Cons.IH show ?thesis
        by (simp add: parseValue.simps [of "cursor s (CR # d # ws' @ LF # rest) l b"]
            readRune_cursor)
    qed
  qed
qed

lemma parseValue_blanks:
  assumes "\<forall>x \<in> set ws. isSpace x \<and> x \<noteq> LF" "\<not> isSpace c"
  shows "parseValue (cursor s (ws @ c # rest) l b) = parseValue (cursor s (c # rest) l b)"
  using assms(1)
proof (induction ws)
  case Nil
  show ?case by simp
next
  case (Cons x ws)
  show ?case
  proof (cases "x = CR")
    case False
    with Cons show ?thesis
      by (simp add: parseValue.simps [of "cursor s (x # ws @ c # rest) l b"] readRune_cursor)
  next
    case True
    from assms(2) have cl: "c \<noteq> LF" by (rule notSpace_simps)
    show ?thesis
    proof (cases ws)
      case Nil
      with True cl show ?thesis
        by (simp add: parseValue.simps [of "cursor s (CR # c # rest) l b"] readRune_cursor)
    next
      case (Cons d ws')
      with True Cons.prems Cons.IH show ?thesis
        by (simp add: parseValue.simps [of "cursor s (CR # d # ws' @ c # rest) l b"]
            readRune_cursor)
    qed
  qed
qed


lemma parseValue_quoted:
  assumes "\<forall>x \<in> set ws. isSpace x \<and> x \<noteq> LF"
  shows "parseValue (cursor s (ws @ DQUOTE # q) l b) = quoteValue (cursor s q l b)"
proof -
  have "parseValue (cursor s (DQUOTE # q) l b) = quoteValue (cursor s q l b)"
    by (simp add: parseValue.simps [of "cursor s (DQUOTE # q) l b"] readRune_cursor)
  with parseValue_blanks [OF assms, of DQUOTE s q l b] show ?thesis by simp
qed

lemma normKey_plain: "plainKey k \<Longrightarrow> normKey tbl k = ToLower tbl k"
proof -
  assume "plainKey k"
  then have ne: "k \<noteq> []" and ns: "\<forall>x \<in> set k. \<not> isSpace x" by (auto simp: plainKey_def)
  have "\<And>w. \<forall>x \<in> set k. \<not> isSpace x \<Longrightarrow> Fields_from w k = (if w @ k = [] then [] else [w @ k])"
    by (induction k) auto
  from this [of "[]"] ns ne have "Fields k = [k]" by (simp add: Fields_def)
  then show ?thesis by (simp add: normKey_def)
qed

lemma Set_empty_plain:
  assumes "plainKey k"
  shows "Get tbl (Set tbl rec k []) k = [] \<and> normKey tbl k \<notin> set (Keys (Set tbl rec k []))"
proof -
  from assms have "normKey tbl k \<noteq> []"
    by (simp add: normKey_plain ToLower_def plainKey_def)
  then show ?thesis
    by (simp add: Set_def Get_def set_Keys TrimSpace_def AList.delete_conv AList.delete_notin_dom)
qed

text \<open>
  Claim C3, as amended.  When the value of a field is empty (a newline comes first after
  the colon, past white space), \<open>parseValue\<close> returns the empty string without error and
  \<open>parseRecord\<close> calls \<open>Set\<close> with it, which removes the key from the record under
  construction: whatever the record held for the key before, \<open>Get\<close> then gives the empty
  string and \<open>Keys\<close> does not list the key.
\<close>

theorem empty_value_removes_key:
  assumes "plainKey k"
    and "\<forall>x \<in> set ws. isSpace x \<and> x \<noteq> LF" and "\<forall>x \<in> set ws'. isSpace x \<and> x \<noteq> LF"
  shows "parseValue (cursor s (ws' @ LF # rest) l b) = (Inr [], cursor s rest (l + 1) b) \<and>
         parseFields tbl rec (cursor s (ws @ k @ COLON # ws' @ LF # rest) l b)
           = parseFields tbl (Set tbl rec k []) (cursor s rest (l + 1) k) \<and>
         Get tbl (Set tbl rec k []) k = [] \<and>
         normKey tbl k \<notin> set (Keys (Set tbl rec k []))"
proof -
  note pv = parseValue_empty [OF assms(3)]
  from parseKey_plain [OF assms(2,1), of s "ws' @ LF # rest" l b] pv [of s rest l k]
  have "parseFields tbl rec (cursor s (ws @ k @ COLON # ws' @ LF # rest) l b)
           = parseFields tbl (Set tbl rec k []) (cursor s rest (l + 1) k)"
    by (simp add: parseFields.simps [of tbl rec "cursor s (ws @ k @ COLON # ws' @ LF # rest) l b"])
  with pv [of s rest l b] Set_empty_plain [OF assms(1), of tbl rec] show ?thesis by simp
qed


lemma parseFields_Nil: "parseFields tbl rec (cursor s [] l b) = (rec, cursor s [] l b)"
  by (simp add: parseFields.simps [of tbl rec "cursor s [] l b"] parseKey_def
      parseKey_seek.simps [of "cursor s [] l b"] readRune_cursor)

text \<open>The line \<^verbatim>\<open>\tk: \n\<close> read into a record that holds \<^verbatim>\<open>k = v\<close>.\<close>

theorem empty_value_removes_key_witness:
  "plainKey [107] \<and> isSpace TAB \<and> isSpace SPC \<and>
   parseValue (cursor (NewScanner [] EOF) [SPC, LF] 0 [107])
     = (Inr [], cursor (NewScanner [] EOF) [] 1 [107]) \<and>
   parseFields id \<lparr>r_id = [98], r_typ = [97], r_data = [([107], [118])]\<rparr>
       (cursor (NewScanner [] EOF) [TAB, 107, COLON, SPC, LF] 0 [])
     = (\<lparr>r_id = [98], r_typ = [97], r_data = []\<rparr>, cursor (NewScanner [] EOF) [] 1 [107]) \<and>
   Set id \<lparr>r_id = [98], r_typ = [97], r_data = [([107], [118])]\<rparr> [107] []
     = \<lparr>r_id = [98], r_typ = [97], r_data = []\<rparr> \<and>
   Get id \<lparr>r_id = [98], r_typ = [97], r_data = []\<rparr> [107] = []"
proof -
  let ?rec = "\<lparr>r_id = [98], r_typ = [97], r_data = [([107], [118])]\<rparr>"
  let ?s = "NewScanner [] EOF"
  have k: "plainKey [107]" by (simp add: plainKey_def isSpace_def)
  have w: "\<forall>x \<in> set [TAB]. isSpace x \<and> x \<noteq> LF" "\<forall>x \<in> set [SPC]. isSpace x \<and> x \<noteq> LF"
    by simp_all
  have st: "Set id ?rec [107] [] = \<lparr>r_id = [98], r_typ = [97], r_data = []\<rparr>"
    by (simp add: rec_eval)
  note e = parseFields_Nil [of id "\<lparr>r_id = [98], r_typ = [97], r_data = []\<rparr>" ?s 1 "[107]"]
  from empty_value_removes_key [OF k w, of ?s "[]" 0 "[107]" id ?rec]
    empty_value_removes_key [OF k w, of ?s "[]" 0 "[]" id ?rec] k st e
  show ?thesis by simp
qed

text \<open>
  Claim C3 as stated fails.  In \<^verbatim>\<open>@a=b\nk: v\nj: w\nk:\n\<close> the key \<^verbatim>\<open>k\<close> first has the
  value \<^verbatim>\<open>v\<close> and then an empty one; the record that \<open>Scan\<close> produces holds \<^verbatim>\<open>j\<close> alone.
\<close>

theorem empty_value_keeps_key_counterexample:
  "Scan id (NewScanner [AT, 97, EQS, 98, LF, 107, COLON, SPC, 118, LF,
                        106, COLON, SPC, 119, LF, 107, COLON, LF] EOF)
     = (True, \<lparr>s_closed = False, s_err = None, s_r = [], s_fin = EOF, s_line = 2,
          s_rec = Some \<lparr>r_id = [98], r_typ = [97], r_data = [([106], [119])]\<rparr>,
          s_b = [107]\<rparr>) \<and>
   Get id \<lparr>r_id = [98], r_typ = [97], r_data = [([106], [119])]\<rparr> [107] \<noteq> [118]"
  by (simp add: scan_eval rec_eval)

section \<open>Scanner: reading runes and counting lines\<close>

lemma counted_refl [simp]: "counted s s"
  by (simp add: counted_def)


lemma counted_upd [simp]:
  "counted s (s'\<lparr>s_b := b\<rparr>) = counted s s'"
  "counted (s\<lparr>s_b := b\<rparr>) s' = counted s s'"
  by (simp_all add: counted_def)

lemma counted_line: "counted s s' \<Longrightarrow> n \<ge> s_line s' \<Longrightarrow> counted s (s'\<lparr>s_line := n\<rparr>)"
  by (auto simp: counted_def)












lemma counted_plain_upd [simp]:
  "counted_plain s (s'\<lparr>s_b := b\<rparr>) = counted_plain s s'"
  "counted_plain (s\<lparr>s_b := b\<rparr>) s' = counted_plain s s'"
  by (simp_all add: counted_plain_def)












section \<open>Quoted values: white space\<close>

lemma quoteValue_loop_quote:
  "quoteValue_loop f sp ln (cursor s (DQUOTE # rest) l b) = (Inr b, cursor s rest l b)"
  by (simp add: quoteValue_loop.simps [of f sp ln "cursor s (DQUOTE # rest) l b"] readRune_cursor)

lemma quoteValue_loop_rune:
  assumes "\<not> isSpace c" "c \<noteq> DQUOTE" "c \<noteq> BSLASH"
  shows "quoteValue_loop f sp ln (cursor s (c # rest) l b)
         = quoteValue_loop False False False
             (cursor s rest l (b @ (if ln then [LF] else if sp then [SPC] else []) @ [c]))"
  using assms notSpace_simps(1,2) [OF assms(1)]
  by (simp add: quoteValue_loop.simps [of f sp ln "cursor s (c # rest) l b"] readRune_cursor)

lemma quoteValue_loop_word:
  assumes "\<forall>c \<in> set u. \<not> isSpace c \<and> c \<noteq> DQUOTE \<and> c \<noteq> BSLASH" "u \<noteq> []"
  shows "quoteValue_loop f sp ln (cursor s (u @ rest) l b)
         = quoteValue_loop False False False
             (cursor s rest l (b @ (if ln then [LF] else if sp then [SPC] else []) @ u))"
proof -
  have plain: "quoteValue_loop False False False (cursor s (w @ rest) l b')
         = quoteValue_loop False False False (cursor s rest l (b' @ w))"
    if "\<forall>c \<in> set w. \<not> isSpace c \<and> c \<noteq> DQUOTE \<and> c \<noteq> BSLASH" for w b'
    using that
  proof (induction w arbitrary: b')
    case Nil
    show ?case by simp
  next
    case (Cons c w)
    then have c: "\<not> isSpace c" "c \<noteq> DQUOTE" "c \<noteq> BSLASH" by auto
    from quoteValue_loop_rune [OF c, of False False False s "w @ rest" l b'] Cons.IH [of "b' @ [c]"]
      Cons.prems
    show ?case by simp
  qed
  from assms(2) obtain c w where u: "u = c # w" by (cases u) auto
  with assms(1) have c: "\<not> isSpace c" "c \<noteq> DQUOTE" "c \<noteq> BSLASH"
    and w: "\<forall>c \<in> set w. \<not> isSpace c \<and> c \<noteq> DQUOTE \<and> c \<noteq> BSLASH" by auto
  from quoteValue_loop_rune [OF c, of f sp ln s "w @ rest" l b]
    plain [OF w, of "b @ (if ln then [LF] else if sp then [SPC] else []) @ [c]"] u
  show ?thesis by simp
qed

text \<open>A run of white space after the first rune of the value.\<close>

lemma quoteValue_loop_blanks:
  assumes "\<forall>x \<in> set ws. isSpace x" "\<not> isSpace c" "\<not> (sp \<and> ln)"
  shows "quoteValue_loop False sp ln (cursor s (ws @ c # rest) l b)
         = quoteValue_loop False
             (if LF \<in> set ws then False else if ln then sp else sp \<or> ws \<noteq> [])
             (ln \<or> LF \<in> set ws)
             (cursor s (c # rest) (l + count_list ws LF) b)"
  using assms(1,3)
proof (induction ws arbitrary: sp ln l)
  case Nil
  then show ?case by auto
next
  case (Cons x ws)
  from assms(2) have cl: "c \<noteq> LF" by (rule notSpace_simps)
  consider (lf) "x = LF" | (cr) "x = CR" | (sp) "x \<noteq> LF" "x \<noteq> CR" by blast
  then show ?case
  proof cases
    case lf
    with Cons.prems Cons.IH [of False True "l + 1"] show ?thesis
      by (simp add: quoteValue_loop.simps [of False sp ln "cursor s (LF # ws @ c # rest) l b"]
          readRune_cursor)
  next
    case sp
    with Cons.prems Cons.IH [of "if ln then sp else True" ln l] show ?thesis
      by (auto simp: quoteValue_loop.simps [of False sp ln "cursor s (x # ws @ c # rest) l b"]
          readRune_cursor)
  next
    case cr
    show ?thesis
    proof (cases ws)
      case Nil
      with cr cl Cons.prems show ?thesis
        by (auto simp: quoteValue_loop.simps [of False sp ln "cursor s (CR # c # rest) l b"]
            readRune_cursor)
    next
      case (Cons d ws')
      show ?thesis
      proof (cases "d = LF")
        case False
        with cr Cons Cons.prems \<open>\<not> (sp \<and> ln)\<close> Cons.IH [of "if ln then sp else True" ln l]
          \<open>\<forall>x\<in>set (x # ws). isSpace x\<close>
        show ?thesis
          by (auto simp: quoteValue_loop.simps
              [of False sp ln "cursor s (CR # d # ws' @ c # rest) l b"] readRune_cursor)
      next
        case True
        have "quoteValue_loop False sp ln (cursor s (CR # LF # ws' @ c # rest) l b)
            = quoteValue_loop False sp ln (cursor s (LF # ws' @ c # rest) l b)"
          by (simp add: quoteValue_loop.simps
              [of False sp ln "cursor s (CR # LF # ws' @ c # rest) l b"]
              quoteValue_loop.simps [of False sp ln "cursor s (LF # ws' @ c # rest) l b"]
              readRune_cursor)
        with cr Cons True Cons.prems \<open>\<not> (sp \<and> ln)\<close> Cons.IH [of sp ln l]
          \<open>\<forall>x\<in>set (x # ws). isSpace x\<close>
        show ?thesis by simp
      qed
    qed
  qed
qed

lemma writeQuoted_loop_word:
  assumes "plainWord u"
  shows "writeQuoted_loop f sp ln (u @ rest)
         = (if ln then [LF, TAB, TAB] else if sp then [SPC] else []) @ u
           @ writeQuoted_loop False False False rest"
proof -
  have plain: "writeQuoted_loop False False False (w @ rest) = w @ writeQuoted_loop False False False rest"
    if "\<forall>c \<in> set w. \<not> isSpace c \<and> c \<noteq> DQUOTE \<and> c \<noteq> BSLASH" for w
    using that by (induction w) (auto dest: notSpace_simps)
  from assms obtain c w where u: "u = c # w" by (cases u) (auto simp: plainWord_def)
  with assms have c: "\<not> isSpace c" "c \<noteq> DQUOTE" "c \<noteq> BSLASH" "c \<noteq> LF"
    and w: "\<forall>c \<in> set w. \<not> isSpace c \<and> c \<noteq> DQUOTE \<and> c \<noteq> BSLASH"
    by (auto simp: plainWord_def dest: notSpace_simps)
  with plain [OF w] u show ?thesis by simp
qed

text \<open>
  Claim C2, as amended.  Between two words of a quoted value, a run of white space with
  no newline is decoded to a single space, and a run with at least one newline (a single
  newline with indentation as much as a blank line) to a single embedded \<^verbatim>\<open>\n\<close>.  Writing
  a value with an embedded \<^verbatim>\<open>\n\<close> gives a quoted block where the \<^verbatim>\<open>\n\<close> is a newline
  followed by two tabs.
\<close>

theorem quoted_white_space_convention:
  assumes "plainWord u" "plainWord w" "ws \<noteq> []" "\<forall>x \<in> set ws. isSpace x"
  shows "quoteValue (cursor s (u @ ws @ w @ DQUOTE # rest) l b)
           = (Inr (u @ [if LF \<in> set ws then LF else SPC] @ w),
              cursor s rest (l + count_list ws LF) (u @ [if LF \<in> set ws then LF else SPC] @ w)) \<and>
         writeQuoted key (u @ LF # w) out
           = out @ [TAB] @ key @ [COLON, if len key < 6 then TAB else SPC, DQUOTE]
               @ u @ [LF, TAB, TAB] @ w @ [DQUOTE, LF]"
proof
  from assms(1,2) have u: "\<forall>c \<in> set u. \<not> isSpace c \<and> c \<noteq> DQUOTE \<and> c \<noteq> BSLASH" "u \<noteq> []"
    and w: "\<forall>c \<in> set w. \<not> isSpace c \<and> c \<noteq> DQUOTE \<and> c \<noteq> BSLASH" "w \<noteq> []"
    by (auto simp: plainWord_def)
  from w obtain c w' where cw: "w = c # w'" "\<not> isSpace c" by (cases w) auto
  let ?sep = "[if LF \<in> set ws then LF else SPC]"
  have "quoteValue (cursor s (u @ ws @ w @ DQUOTE # rest) l b)
      = quoteValue_loop True False False (cursor s (u @ ws @ w @ DQUOTE # rest) l [])"
    by (simp add: quoteValue_def)
  also have "\<dots> = quoteValue_loop False False False (cursor s (ws @ c # w' @ DQUOTE # rest) l u)"
    using quoteValue_loop_word [OF u, of True False False s "ws @ w @ DQUOTE # rest" l "[]"] cw
    by simp
  also have "\<dots> = quoteValue_loop False (LF \<notin> set ws) (LF \<in> set ws)
                     (cursor s (w @ DQUOTE # rest) (l + count_list ws LF) u)"
    using quoteValue_loop_blanks [OF assms(4) cw(2), of False False s "w' @ DQUOTE # rest" l u]
      assms(3) cw(1) by simp
  also have "\<dots> = quoteValue_loop False False False
                     (cursor s (DQUOTE # rest) (l + count_list ws LF) (u @ ?sep @ w))"
    using quoteValue_loop_word [OF w, of False "LF \<notin> set ws" "LF \<in> set ws" s "DQUOTE # rest"
      "l + count_list ws LF" u] by simp
  finally show "quoteValue (cursor s (u @ ws @ w @ DQUOTE # rest) l b)
           = (Inr (u @ ?sep @ w), cursor s rest (l + count_list ws LF) (u @ ?sep @ w))"
    by (simp add: quoteValue_loop_quote)
next
  from writeQuoted_loop_word [OF assms(1), of True False False "LF # w"]
    writeQuoted_loop_word [OF assms(2), of False False True "[]"]
  show "writeQuoted key (u @ LF # w) out
           = out @ [TAB] @ key @ [COLON, if len key < 6 then TAB else SPC, DQUOTE]
               @ u @ [LF, TAB, TAB] @ w @ [DQUOTE, LF]"
    by (simp add: writeQuoted_def)
qed

text \<open>The quoted texts \<^verbatim>\<open>a\n\tb"\<close>, \<^verbatim>\<open>a\n\n\tb"\<close> and \<^verbatim>\<open>a \tb"\<close>, and the value \<^verbatim>\<open>a\nb\<close> written
  for the key \<^verbatim>\<open>k\<close>.\<close>

theorem quoted_white_space_convention_witness:
  "plainWord [97] \<and> plainWord [98] \<and> isSpace LF \<and> isSpace TAB \<and> isSpace SPC \<and>
   quoteValue (cursor (NewScanner [] EOF) [97, LF, TAB, 98, DQUOTE, LF] 0 [])
     = (Inr [97, LF, 98], cursor (NewScanner [] EOF) [LF] 1 [97, LF, 98]) \<and>
   quoteValue (cursor (NewScanner [] EOF) [97, LF, LF, TAB, 98, DQUOTE, LF] 0 [])
     = (Inr [97, LF, 98], cursor (NewScanner [] EOF) [LF] 2 [97, LF, 98]) \<and>
   quoteValue (cursor (NewScanner [] EOF) [97, SPC, TAB, 98, DQUOTE, LF] 0 [])
     = (Inr [97, SPC, 98], cursor (NewScanner [] EOF) [LF] 0 [97, SPC, 98]) \<and>
   writeQuoted [107] [97, LF, 98] []
     = [TAB, 107, COLON, TAB, DQUOTE, 97, LF, TAB, TAB, 98, DQUOTE, LF]"
proof -
  let ?s = "NewScanner [] EOF"
  note T = quoted_white_space_convention
  have a: "plainWord [97]" "plainWord [98]" by (simp_all add: plainWord_def isSpace_def)
  have w1: "[LF, TAB] \<noteq> []" "\<forall>x \<in> set [LF, TAB]. isSpace x"
    and w2: "[LF, LF, TAB] \<noteq> []" "\<forall>x \<in> set [LF, LF, TAB]. isSpace x"
    and w3: "[SPC, TAB] \<noteq> []" "\<forall>x \<in> set [SPC, TAB]. isSpace x"
    by simp_all
  have k: "len [107] < 6" by (simp add: len_def RuneLen_def)
  from T [OF a w1, of ?s "[LF]" 0 "[]" "[107]" "[]"] T [OF a w2, of ?s "[LF]" 0 "[]" "[107]" "[]"]
    T [OF a w3, of ?s "[LF]" 0 "[]" "[107]" "[]"] a k
  show ?thesis by simp
qed

text \<open>
  Claim C2 as stated fails.  The single newline with indentation in \<^verbatim>\<open>a\n\tb"\<close> is decoded
  to \<^verbatim>\<open>\n\<close>, not to a space, like the blank line in \<^verbatim>\<open>a\n\n\tb"\<close>; and the value \<^verbatim>\<open>a\nb\<close> is
  written as \<^verbatim>\<open>"a\n\t\tb"\<close>, with no blank line.
\<close>

theorem single_newline_is_kept_counterexample:
  "fst (quoteValue (NewScanner [97, LF, TAB, 98, DQUOTE, LF] EOF)) = Inr [97, LF, 98] \<and>
   fst (quoteValue (NewScanner [97, LF, TAB, 98, DQUOTE, LF] EOF)) \<noteq> Inr [97, SPC, 98] \<and>
   fst (quoteValue (NewScanner [97, LF, LF, TAB, 98, DQUOTE, LF] EOF)) = Inr [97, LF, 98] \<and>
   writeQuoted [107] [97, LF, 98] []
     = [TAB, 107, COLON, TAB, DQUOTE, 97, LF, TAB, TAB, 98, DQUOTE, LF]"
  by (simp add: scan_eval write_eval isSpace_def)

section \<open>Quoted values: the end of the stream\<close>

lemma quoteValue_loop_Nil:
  "quoteValue_loop f sp ln (cursor s [] l b)
     = ((if b = [] then Inl (s_fin s) else Inr b), cursor s [] l b)"
  by (simp add: quoteValue_loop.simps [of f sp ln "cursor s [] l b"] readRune_cursor)

lemma quoteValue_loop_unterminated:
  "\<not> unescaped_quote q \<Longrightarrow>
   \<exists>l' acc. quoteValue_loop f sp ln (cursor s q l b)
     = ((if acc = [] then Inl (s_fin s) else Inr acc), cursor s [] l' acc)"
proof (induction "length q" arbitrary: q f sp ln l b rule: less_induct)
  case less
  note IH = less.hyps
  show ?case
  proof (cases q)
    case Nil
    then show ?thesis by (auto simp: quoteValue_loop_Nil)
  next
    case (Cons c cs)
    note q = Cons
    let ?S = "cursor s (c # cs) l b"
    note unfold = quoteValue_loop.simps [of f sp ln ?S]
    from less.prems q have nq: "c \<noteq> DQUOTE" by (auto split: if_splits)
    consider (esc) "c = BSLASH" | (cr) "c = CR" | (plain) "c \<noteq> BSLASH" "c \<noteq> CR" by blast
    then show ?thesis
    proof cases
      case plain
      with less.prems q nq have u: "\<not> unescaped_quote cs" by simp
      have "\<exists>f' sp' ln' l' b'. quoteValue_loop f sp ln ?S
              = quoteValue_loop f' sp' ln' (cursor s cs l' b')"
        using plain nq by (simp add: unfold readRune_cursor) blast
      then obtain f' sp' ln' l' b' where
        "quoteValue_loop f sp ln ?S = quoteValue_loop f' sp' ln' (cursor s cs l' b')" by blast
      with IH [OF _ u, of f' sp' ln' l' b'] q show ?thesis by simp
    next
      case cr
      show ?thesis
      proof (cases cs)
        case Nil
        have "quoteValue_loop f sp ln (cursor s [CR] l b)
            = ((if b = [] then Inl (s_fin s) else Inr b), cursor s [] l b)"
          by (simp add: quoteValue_loop.simps [of f sp ln "cursor s [CR] l b"] readRune_cursor)
        with cr q Nil show ?thesis by (intro exI [of _ l] exI [of _ b]) simp
      next
        case (Cons e es)
        show ?thesis
        proof (cases "e = LF")
          case True
          with less.prems q cr Cons have u: "\<not> unescaped_quote es" by simp
          have "\<exists>f' sp' ln' l' b'. quoteValue_loop f sp ln (cursor s (CR # LF # es) l b)
              = quoteValue_loop f' sp' ln' (cursor s es l' b')"
            by (simp add: quoteValue_loop.simps [of f sp ln "cursor s (CR # LF # es) l b"]
                readRune_cursor) blast
          then obtain f' sp' ln' l' b' where
            "quoteValue_loop f sp ln (cursor s (CR # LF # es) l b)
               = quoteValue_loop f' sp' ln' (cursor s es l' b')" by blast
          with IH [OF _ u, of f' sp' ln' l' b'] q cr Cons True show ?thesis by simp
        next
          case False
          with less.prems q cr Cons have u: "\<not> unescaped_quote cs" by simp
          have "\<exists>f' sp' ln' l' b'. quoteValue_loop f sp ln (cursor s (CR # e # es) l b)
              = quoteValue_loop f' sp' ln' (cursor s (e # es) l' b')"
            using False
            by (simp add: quoteValue_loop.simps [of f sp ln "cursor s (CR # e # es) l b"]
                readRune_cursor) blast
          then obtain f' sp' ln' l' b' where
            "quoteValue_loop f sp ln (cursor s (CR # e # es) l b)
               = quoteValue_loop f' sp' ln' (cursor s (e # es) l' b')" by blast
          with IH [OF _ u, of f' sp' ln' l' b'] q cr Cons show ?thesis by simp
        qed
      qed
    next
      case esc
      note unf = quoteValue_loop.simps [of f sp ln "cursor s (BSLASH # cs) l b"]
      show ?thesis
      proof (cases cs)
        case Nil
        have "quoteValue_loop f sp ln (cursor s [BSLASH] l b)
            = quoteValue_loop f sp ln (cursor s [] l b)"
          by (simp add: quoteValue_loop.simps [of f sp ln "cursor s [BSLASH] l b"]
              readRune_cursor)
        with esc q Nil show ?thesis
          by (intro exI [of _ l] exI [of _ b]) (simp add: quoteValue_loop_Nil)
      next
        case (Cons d ds)
        show ?thesis
        proof (cases "d = CR")
          case False
          with less.prems q esc Cons have u: "\<not> unescaped_quote ds" by simp
          have "quoteValue_loop f sp ln (cursor s (BSLASH # d # ds) l b)
              = quoteValue_loop False False False
                  (cursor s ds l (b @ (if ln then [LF] else if sp then [SPC] else []) @ [d]))"
            using False
            by (simp add: quoteValue_loop.simps [of f sp ln "cursor s (BSLASH # d # ds) l b"]
                readRune_cursor)
          with IH [OF _ u, of False False False l
              "b @ (if ln then [LF] else if sp then [SPC] else []) @ [d]"] q esc Cons
          show ?thesis by simp
        next
          case True
          note d = True
          show ?thesis
          proof (cases ds)
            case Nil
            have "quoteValue_loop f sp ln (cursor s [BSLASH, CR] l b)
                = quoteValue_loop f sp ln (cursor s [] l b)"
              by (simp add: quoteValue_loop.simps [of f sp ln "cursor s [BSLASH, CR] l b"]
                  readRune_cursor)
            with esc q Cons d Nil show ?thesis
              by (intro exI [of _ l] exI [of _ b]) (simp add: quoteValue_loop_Nil)
          next
            case ds: (Cons e es)
            show ?thesis
            proof (cases "e = LF")
              case True
              with less.prems q esc Cons d ds have u: "\<not> unescaped_quote es" by simp
              have "quoteValue_loop f sp ln (cursor s (BSLASH # CR # LF # es) l b)
                  = quoteValue_loop False False False (cursor s es l (b @ (if ln then [LF] else if sp then [SPC] else []) @ [LF]))"
                by (simp add: quoteValue_loop.simps
                    [of f sp ln "cursor s (BSLASH # CR # LF # es) l b"] readRune_cursor)
              with IH [OF _ u, of False False False l "b @ (if ln then [LF] else if sp then [SPC] else []) @ [LF]"]
                q esc Cons d ds True
              show ?thesis by simp
            next
              case False
              with less.prems q esc Cons d ds have u: "\<not> unescaped_quote ds" by simp
              have "quoteValue_loop f sp ln (cursor s (BSLASH # CR # e # es) l b)
                  = quoteValue_loop False False False (cursor s (e # es) l (b @ (if ln then [LF] else if sp then [SPC] else []) @ [CR]))"
                using False
                by (simp add: quoteValue_loop.simps
                    [of f sp ln "cursor s (BSLASH # CR # e # es) l b"] readRune_cursor)
              with IH [OF _ u, of False False False l "b @ (if ln then [LF] else if sp then [SPC] else []) @ [CR]"]
                q esc Cons d ds
              show ?thesis by simp
            qed
          qed
        qed
      qed
    qed
  qed
qed

lemma Get_Set_plain:
  assumes "plainKey k"
  shows "Get tbl (Set tbl rec k v) k = TrimSpace v"
proof -
  from assms have "normKey tbl k \<noteq> []"
    by (simp add: normKey_plain ToLower_def plainKey_def)
  then show ?thesis
    by (simp add: Set_def Get_def Let_def AList.delete_conv AList.update_conv)
qed

text \<open>
  Claim C6, as amended.  Let the stream end inside a quoted value, before a closing
  quotation mark.  When something was accumulated, \<open>quoteValue\<close> returns it as the value,
  without error, and \<open>parseRecord\<close> passes it to \<open>Set\<close>: the field then holds the
  accumulated text with the white space around it trimmed (so it is removed when only
  white space was accumulated).  When nothing was accumulated, \<open>quoteValue\<close> returns the
  error of the reader and the record stays as it was.  Either way the loop over the
  fields ends there and returns the record, and the scanner records no error.
\<close>

theorem unterminated_quote_lenient:
  assumes "\<not> unescaped_quote q" and "plainKey k"
    and "\<forall>x \<in> set ws. isSpace x \<and> x \<noteq> LF" and "\<forall>x \<in> set ws'. isSpace x \<and> x \<noteq> LF"
  shows "\<exists>l' acc.
           quoteValue (cursor s q l b)
             = ((if acc = [] then Inl (s_fin s) else Inr acc), cursor s [] l' acc) \<and>
           parseFields tbl rec (cursor s (ws @ k @ COLON # ws' @ DQUOTE # q) l b)
             = ((if acc = [] then rec else Set tbl rec k acc), cursor s [] l' acc) \<and>
           Get tbl (if acc = [] then rec else Set tbl rec k acc) k
             = (if acc = [] then Get tbl rec k else TrimSpace acc)"
proof -
  from quoteValue_loop_unterminated [OF assms(1), of True False False s l "[]"]
  obtain l' acc where qv: "quoteValue_loop True False False (cursor s q l [])
     = ((if acc = [] then Inl (s_fin s) else Inr acc), cursor s [] l' acc)" by blast
  then have q1: "quoteValue (cursor s q l b)
     = ((if acc = [] then Inl (s_fin s) else Inr acc), cursor s [] l' acc)"
    and q2: "quoteValue (cursor s q l k)
     = ((if acc = [] then Inl (s_fin s) else Inr acc), cursor s [] l' acc)"
    by (simp_all add: quoteValue_def)
  from parseKey_plain [OF assms(3,2), of s "ws' @ DQUOTE # q" l b]
    parseValue_quoted [OF assms(4), of s q l k] q2
  have "parseFields tbl rec (cursor s (ws @ k @ COLON # ws' @ DQUOTE # q) l b)
      = ((if acc = [] then rec else Set tbl rec k acc), cursor s [] l' acc)"
    by (simp add: parseFields.simps [of tbl rec "cursor s (ws @ k @ COLON # ws' @ DQUOTE # q) l b"]
        parseFields_Nil)
  with q1 Get_Set_plain [OF assms(2), of tbl rec acc] show ?thesis
    by (intro exI [of _ l'] exI [of _ acc]) simp
qed

text \<open>The field line \<^verbatim>\<open>\tj: "a \"b\<close> at the end of the stream.\<close>

theorem unterminated_quote_lenient_witness:
  "\<not> unescaped_quote [97, SPC, BSLASH, DQUOTE, 98] \<and> plainKey [106] \<and>
   quoteValue (cursor (NewScanner [] EOF) [97, SPC, BSLASH, DQUOTE, 98] 0 [])
     = (Inr [97, SPC, DQUOTE, 98], cursor (NewScanner [] EOF) [] 0 [97, SPC, DQUOTE, 98]) \<and>
   parseFields id \<lparr>r_id = [98], r_typ = [97], r_data = []\<rparr>
       (cursor (NewScanner [] EOF) [TAB, 106, COLON, SPC, DQUOTE, 97, SPC, BSLASH, DQUOTE, 98] 0 [])
     = (\<lparr>r_id = [98], r_typ = [97], r_data = [([106], [97, SPC, DQUOTE, 98])]\<rparr>,
        cursor (NewScanner [] EOF) [] 0 [97, SPC, DQUOTE, 98]) \<and>
   Get id \<lparr>r_id = [98], r_typ = [97], r_data = [([106], [97, SPC, DQUOTE, 98])]\<rparr> [106]
     = [97, SPC, DQUOTE, 98]"
proof -
  let ?s = "NewScanner [] EOF"
  let ?q = "[97, SPC, BSLASH, DQUOTE, 98]"
  let ?rec = "\<lparr>r_id = [98], r_typ = [97], r_data = []\<rparr>"
  have u: "\<not> unescaped_quote ?q" by simp
  have k: "plainKey [106]" by (simp add: plainKey_def isSpace_def)
  have w: "\<forall>x \<in> set [TAB]. isSpace x \<and> x \<noteq> LF" "\<forall>x \<in> set [SPC]. isSpace x \<and> x \<noteq> LF"
    by simp_all
  have e: "quoteValue (cursor ?s ?q 0 [])
     = (Inr [97, SPC, DQUOTE, 98], cursor ?s [] 0 [97, SPC, DQUOTE, 98])"
    by (simp add: scan_eval cursor_def isSpace_def)
  have st: "Set id ?rec [106] [97, SPC, DQUOTE, 98]
     = \<lparr>r_id = [98], r_typ = [97], r_data = [([106], [97, SPC, DQUOTE, 98])]\<rparr>"
    and g: "Get id \<lparr>r_id = [98], r_typ = [97], r_data = [([106], [97, SPC, DQUOTE, 98])]\<rparr> [106]
     = [97, SPC, DQUOTE, 98]"
    by (simp_all add: rec_eval)
  from unterminated_quote_lenient [OF u k w, of ?s 0 "[]" id ?rec]
  obtain l' acc where
    q: "quoteValue (cursor ?s ?q 0 [])
          = ((if acc = [] then Inl (s_fin ?s) else Inr acc), cursor ?s [] l' acc)"
    and p: "parseFields id ?rec (cursor ?s ([TAB] @ [106] @ COLON # [SPC] @ DQUOTE # ?q) 0 [])
          = ((if acc = [] then ?rec else Set id ?rec [106] acc), cursor ?s [] l' acc)"
    by blast
  from q e have "cursor ?s [] l' acc = cursor ?s [] 0 [97, SPC, DQUOTE, 98]" by simp
  then have "s_b (cursor ?s [] l' acc) = s_b (cursor ?s [] 0 [97, SPC, DQUOTE, 98])"
    "s_line (cursor ?s [] l' acc) = s_line (cursor ?s [] 0 [97, SPC, DQUOTE, 98])"
    by simp_all
  then have "acc = [97, SPC, DQUOTE, 98]" "l' = 0" by simp_all
  with p st have "parseFields id ?rec
       (cursor ?s [TAB, 106, COLON, SPC, DQUOTE, 97, SPC, BSLASH, DQUOTE, 98] 0 [])
     = (\<lparr>r_id = [98], r_typ = [97], r_data = [([106], [97, SPC, DQUOTE, 98])]\<rparr>,
        cursor ?s [] 0 [97, SPC, DQUOTE, 98])"
    by simp
  with u k e g show ?thesis by (intro conjI)
qed

text \<open>
  Claim C6 as stated fails.  In \<^verbatim>\<open>@a=b\nk: v\nj:"\ \<close> the stream ends inside the quoted
  value of \<^verbatim>\<open>j\<close> after an escaped space: the accumulated value is not empty, yet the field
  \<^verbatim>\<open>j\<close> is not stored.
\<close>

theorem escaped_space_not_stored_counterexample:
  "quoteValue (NewScanner [BSLASH, SPC] EOF)
     = (Inr [SPC],
        \<lparr>s_closed = False, s_err = None, s_r = [], s_fin = EOF, s_line = 0, s_rec = None,
           s_b = [SPC]\<rparr>) \<and>
   Scan id (NewScanner [AT, 97, EQS, 98, LF, 107, COLON, SPC, 118, LF,
                        106, COLON, DQUOTE, BSLASH, SPC] EOF)
     = (True, \<lparr>s_closed = False, s_err = None, s_r = [], s_fin = EOF, s_line = 1,
          s_rec = Some \<lparr>r_id = [98], r_typ = [97], r_data = [([107], [118])]\<rparr>,
          s_b = [SPC]\<rparr>) \<and>
   Get id \<lparr>r_id = [98], r_typ = [97], r_data = [([107], [118])]\<rparr> [106] = []"
  by (simp add: scan_eval rec_eval)

end
